theory Spec2Isabelle
  imports Complex_Main
begin

section \<open>History manager (useHistory in src/hooks/useTextFormatting.ts)\<close>

text \<open>
  Snapshots are HTML strings. The two stacks are JavaScript arrays: \<open>push\<close> appends at
  the end, \<open>pop\<close> removes the last element and \<open>shift\<close> removes the first one.
  The refs of the hook (\<open>undoStack\<close>, \<open>redoStack\<close>, \<open>currentValue\<close>,
  \<open>lastPushedValue\<close>, \<open>debounceTimer\<close>) are the fields of the state.

  A pending \<open>setTimeout\<close> is the pair of the milliseconds still to run and the value
  its closure captured; \<open>None\<close> is "no timeout pending" (a timeout that has fired
  is never looked at again by the source: \<open>clearTimeout\<close> on it does nothing).
\<close>

type_synonym html = string

record history =
  undoStack :: "html list"
  redoStack :: "html list"
  currentValue :: html
  lastPushedValue :: html
  debounceTimer :: "(nat \<times> html) option"

text \<open>The options of the hook. \<open>maxHistory\<close> is a capacity: a natural number.\<close>

record options =
  maxHistory :: nat
  debounceMs :: nat

definition defaultOptions :: options where
  "defaultOptions = \<lparr>maxHistory = 50, debounceMs = 500\<rparr>"

definition useHistory :: "html \<Rightarrow> history" where
  "useHistory initialValue =
     \<lparr>undoStack = [], redoStack = [], currentValue = initialValue,
      lastPushedValue = initialValue, debounceTimer = None\<rparr>"

text \<open>The body of the arrow function handed to \<open>setTimeout\<close> in \<open>pushToHistory\<close>.\<close>

definition timerCallback :: "options \<Rightarrow> html \<Rightarrow> history \<Rightarrow> history" where
  "timerCallback opts v h =
     (if v = lastPushedValue h then h
      else
        let pushed = undoStack h @ [lastPushedValue h];
            limited = (if length pushed > maxHistory opts then tl pushed else pushed)
        in h\<lparr>undoStack := limited, redoStack := [], lastPushedValue := v\<rparr>)"

definition pushToHistory :: "options \<Rightarrow> html \<Rightarrow> history \<Rightarrow> history" where
  "pushToHistory opts v h =
     h\<lparr>currentValue := v, debounceTimer := Some (debounceMs opts, v)\<rparr>"

text \<open>
  Time passing: \<open>elapse opts dt h\<close> lets \<open>dt\<close> milliseconds go by with no call of
  the hook. A pending timeout fires once its delay has run out.
\<close>

definition elapse :: "options \<Rightarrow> nat \<Rightarrow> history \<Rightarrow> history" where
  "elapse opts dt h =
     (case debounceTimer h of
        None \<Rightarrow> h
      | Some (r, v) \<Rightarrow>
          if dt < r then h\<lparr>debounceTimer := Some (r - dt, v)\<rparr>
          else timerCallback opts v (h\<lparr>debounceTimer := None\<rparr>))"

text \<open>\<open>undo\<close> and \<open>redo\<close> return \<open>null\<close> (\<open>None\<close>) when there is nothing to do.\<close>

definition undo :: "history \<Rightarrow> html option \<times> history" where
  "undo h =
     (if undoStack h = [] then (None, h)
      else
        let previousValue = last (undoStack h)
        in (Some previousValue,
            h\<lparr>undoStack := butlast (undoStack h),
              redoStack := redoStack h @ [lastPushedValue h],
              currentValue := previousValue,
              lastPushedValue := previousValue\<rparr>))"

definition redo :: "history \<Rightarrow> html option \<times> history" where
  "redo h =
     (if redoStack h = [] then (None, h)
      else
        let nextValue = last (redoStack h)
        in (Some nextValue,
            h\<lparr>redoStack := butlast (redoStack h),
              undoStack := undoStack h @ [lastPushedValue h],
              currentValue := nextValue,
              lastPushedValue := nextValue\<rparr>))"

definition reset :: "html \<Rightarrow> history \<Rightarrow> history" where
  "reset v h =
     h\<lparr>undoStack := [], redoStack := [], currentValue := v, lastPushedValue := v\<rparr>"

text \<open>
  A recording that is committed: \<open>pushToHistory\<close>, then at least the debounce delay
  with no further call, so that its timeout fires.
\<close>

definition record_commit :: "options \<Rightarrow> html \<times> nat \<Rightarrow> history \<Rightarrow> history" where
  "record_commit opts vd h = elapse opts (snd vd) (pushToHistory opts (fst vd) h)"

fun record_all :: "options \<Rightarrow> (html \<times> nat) list \<Rightarrow> history \<Rightarrow> history" where
  "record_all opts [] h = h"
| "record_all opts (vd # vds) h = record_all opts vds (record_commit opts vd h)"

text \<open>Calling \<open>undo()\<close> (\<open>redo()\<close>) \<open>n\<close> times, collecting what each call returns.\<close>

fun undo_times :: "nat \<Rightarrow> history \<Rightarrow> html option list \<times> history" where
  "undo_times 0 h = ([], h)"
| "undo_times (Suc n) h =
     (let (r, h') = undo h; (rs, h'') = undo_times n h' in (r # rs, h''))"

fun redo_times :: "nat \<Rightarrow> history \<Rightarrow> html option list \<times> history" where
  "redo_times 0 h = ([], h)"
| "redo_times (Suc n) h =
     (let (r, h') = redo h; (rs, h'') = redo_times n h' in (r # rs, h''))"

text \<open>Any interleaving of calls of the hook and of time passing.\<close>

datatype event = PushToHistory html | Elapse nat | Undo | Redo | Reset html

fun step :: "options \<Rightarrow> event \<Rightarrow> history \<Rightarrow> history" where
  "step opts (PushToHistory v) h = pushToHistory opts v h"
| "step opts (Elapse dt) h = elapse opts dt h"
| "step opts Undo h = snd (undo h)"
| "step opts Redo h = snd (redo h)"
| "step opts (Reset v) h = reset v h"

fun run :: "options \<Rightarrow> event list \<Rightarrow> history \<Rightarrow> history" where
  "run opts [] h = h"
| "run opts (e # es) h = run opts es (step opts e h)"

text \<open>
  A burst of calls: each entry is the time since the previous call and the value
  recorded. The first call of a burst is made directly with \<open>pushToHistory\<close>.
\<close>

fun burst :: "options \<Rightarrow> (nat \<times> html) list \<Rightarrow> history \<Rightarrow> history" where
  "burst opts [] h = h"
| "burst opts (c # calls) h =
     burst opts calls (pushToHistory opts (snd c) (elapse opts (fst c) h))"

text \<open>The capacity that the two stacks share (see \<open>within_capacity_run\<close>).\<close>

definition within_capacity :: "options \<Rightarrow> history \<Rightarrow> bool" where
  "within_capacity opts h \<longleftrightarrow>
     length (undoStack h) + length (redoStack h) \<le> maxHistory opts"

text \<open>Concrete inputs used below.\<close>

definition smallOptions :: options where
  "smallOptions = \<lparr>maxHistory = 2, debounceMs = 500\<rparr>"

definition fifty_two_values :: "(html \<times> nat) list" where
  "fifty_two_values = map (\<lambda>i. (replicate i CHR ''x'', 501)) [1..<53]"

section \<open>Drag-reorder engine (src/hooks/useDragAndDrop.ts)\<close>

text \<open>
  An element is a handle (the identity of a DOM node); \<open>===\<close> on elements is equality
  of handles. \<open>getBoundingClientRect\<close> is the layout of the page, a function from
  elements to rectangles. Coordinates are numbers; they are only added, halved and
  compared, and are modelled as reals.
\<close>

type_synonym element = nat

record DOMRect =
  top_px :: real
  bottom_px :: real
  height_px :: real

datatype position = Before | After

text \<open>The object \<open>{ dropTarget, dropPosition, indicatorY }\<close> that is returned.\<close>

type_synonym drop = "element option \<times> position option \<times> real option"

definition midY :: "DOMRect \<Rightarrow> real" where
  "midY rect = top_px rect + height_px rect / 2"

text \<open>
  The \<open>for\<close> loop of \<open>calculateDropPosition\<close>, with the three local variables as
  the accumulator; \<open>continue\<close> skips the dragged element and \<open>break\<close> returns.
\<close>

fun calculateDropPosition_loop ::
  "(element \<Rightarrow> DOMRect) \<Rightarrow> real \<Rightarrow> element \<Rightarrow> element list \<Rightarrow> drop \<Rightarrow> drop" where
  "calculateDropPosition_loop getBoundingClientRect y draggedElement [] acc = acc"
| "calculateDropPosition_loop getBoundingClientRect y draggedElement (block # blocks) acc =
     (if block = draggedElement
      then calculateDropPosition_loop getBoundingClientRect y draggedElement blocks acc
      else
        let rect = getBoundingClientRect block in
        if y < midY rect
        then (Some block, Some Before, Some (top_px rect))
        else calculateDropPosition_loop getBoundingClientRect y draggedElement blocks
               (Some block, Some After, Some (bottom_px rect)))"

definition calculateDropPosition ::
  "(element \<Rightarrow> DOMRect) \<Rightarrow> real \<Rightarrow> element list \<Rightarrow> element \<Rightarrow> drop" where
  "calculateDropPosition getBoundingClientRect y blocks draggedElement =
     calculateDropPosition_loop getBoundingClientRect y draggedElement blocks (None, None, None)"

text \<open>
  The subtree of the editable root: every element has a handle, a tag name (in lower
  case) and its children in document order.
\<close>

datatype node = Node (ident: element) (tagName: string) (childNodes: "node list")

fun descendants :: "node \<Rightarrow> node list" where
  "descendants (Node e t cs) = concat (map (\<lambda>c. c # descendants c) cs)"

definition inclusiveDescendants :: "node \<Rightarrow> element list" where
  "inclusiveDescendants n = ident n # map ident (descendants n)"

fun edges :: "node \<Rightarrow> (element \<times> element) list" where
  "edges (Node p t cs) = concat (map (\<lambda>c. (ident c, p) # edges c) cs)"

definition parentElement :: "node \<Rightarrow> element \<Rightarrow> element option" where
  "parentElement editor e = map_of (edges editor) e"

definition findNode :: "node \<Rightarrow> element \<Rightarrow> node option" where
  "findNode editor e = find (\<lambda>n. ident n = e) (editor # descendants editor)"

definition nextSibling :: "node \<Rightarrow> element \<Rightarrow> element option" where
  "nextSibling editor e =
     (case parentElement editor e of
        None \<Rightarrow> None
      | Some p \<Rightarrow>
          (case findNode editor p of
             None \<Rightarrow> None
           | Some parent \<Rightarrow>
               (case dropWhile (\<lambda>c. ident c \<noteq> e) (childNodes parent) of
                  _ # n # _ \<Rightarrow> Some (ident n)
                | _ \<Rightarrow> None)))"

fun removeNode :: "element \<Rightarrow> node \<Rightarrow> node" where
  "removeNode e (Node i t cs) = Node i t (map (removeNode e) (filter (\<lambda>c. ident c \<noteq> e) cs))"

fun insertChild :: "element \<Rightarrow> node \<Rightarrow> element option \<Rightarrow> node \<Rightarrow> node" where
  "insertChild p new reference (Node i t cs) =
     (if i = p
      then Node i t
             (case reference of
                None \<Rightarrow> cs @ [new]
              | Some r \<Rightarrow> takeWhile (\<lambda>c. ident c \<noteq> r) cs @ new # dropWhile (\<lambda>c. ident c \<noteq> r) cs)
      else Node i t (map (insertChild p new reference) cs))"

text \<open>
  \<open>parent.insertBefore(node, child)\<close> of the DOM, for a node of the subtree: it throws
  a \<open>HierarchyRequestError\<close> when the node is the parent or one of its ancestors;
  when the reference child is the node itself, the node's next sibling takes its place;
  the node leaves its old place; a \<open>null\<close> reference appends.
\<close>

datatype dom_exception = InvalidStateError | HierarchyRequestError | InvalidNodeTypeError

definition insertBefore ::
  "node \<Rightarrow> element \<Rightarrow> element \<Rightarrow> element option \<Rightarrow> dom_exception + node" where
  "insertBefore editor parent e child =
     (case findNode editor e of
        None \<Rightarrow> Inr editor
      | Some subtree \<Rightarrow>
          if parent \<in> set (inclusiveDescendants subtree) then Inl HierarchyRequestError
          else
            let reference = (if child = Some e then nextSibling editor e else child)
            in Inr (insertChild parent subtree reference (removeNode e editor)))"

text \<open>
  The state of the hook and the part of the page it touches: the editable root
  (\<open>editorRef.current\<close>, \<open>None\<close> for \<open>null\<close>) with its subtree, the children
  of \<open>document.body\<close> (where the ghost is appended), the class list of every element,
  the layout, and the number of calls of \<open>onContentChange\<close> made so far.
\<close>

record DragState =
  isDragging :: bool
  draggedElement :: "element option"
  dropIndicatorY :: "real option"
  dropTarget :: "element option"
  dropPosition :: "position option"

definition idleDragState :: DragState where
  "idleDragState =
     \<lparr>isDragging = False, draggedElement = None, dropIndicatorY = None,
      dropTarget = None, dropPosition = None\<rparr>"

record dnd =
  dragState :: DragState
  dragGhostRef :: "element option"
  ghostPosition :: "(real \<times> real) option"
  editorRef :: "node option"
  bodyChildren :: "element list"
  classList :: "element \<Rightarrow> string set"
  layout :: "element \<Rightarrow> DOMRect"
  contentChanges :: nat

definition DRAGGABLE_SELECTORS :: "string list" where
  "DRAGGABLE_SELECTORS =
     [''p'', ''h1'', ''h2'', ''h3'', ''h4'', ''h5'', ''h6'', ''ul'', ''ol'', ''blockquote'',
      ''pre'', ''figure'', ''img'', ''video'', ''hr'', ''table'']"

text \<open>
  \<open>findBlockParent\<close> walks up from the element; only the ancestor that is a child of
  the editable root can pass the test \<open>current.parentElement === editorRef.current\<close>,
  and it is returned when it matches one of the selectors.
\<close>

definition findBlockParent :: "dnd \<Rightarrow> element \<Rightarrow> element option" where
  "findBlockParent s e =
     (case editorRef s of
        None \<Rightarrow> None
      | Some editor \<Rightarrow>
          (case find (\<lambda>c. e \<in> set (inclusiveDescendants c)) (childNodes editor) of
             None \<Rightarrow> None
           | Some c \<Rightarrow> if tagName c \<in> set DRAGGABLE_SELECTORS then Some (ident c) else None))"

text \<open>
  \<open>getBlockElements\<close> is \<open>editorRef.current.querySelectorAll\<close> on the string
  \<open>:scope > p, h1, h2, ..., table\<close>. The commas separate selectors, so
  \<open>:scope >\<close> belongs to the first of them only: a \<open>p\<close> is matched when it is a
  child of the editable root, an element with one of the other tags is matched wherever
  it is below the editor. The result is in document order.
\<close>

definition matchesBlockSelector :: "bool \<Rightarrow> string \<Rightarrow> bool" where
  "matchesBlockSelector isChildOfScope t \<longleftrightarrow>
     (isChildOfScope \<and> t = hd DRAGGABLE_SELECTORS) \<or> t \<in> set (tl DRAGGABLE_SELECTORS)"

definition getBlockElements :: "dnd \<Rightarrow> element list" where
  "getBlockElements s =
     (case editorRef s of
        None \<Rightarrow> []
      | Some editor \<Rightarrow>
          concat (map (\<lambda>c.
              (if matchesBlockSelector True (tagName c) then [ident c] else []) @
              map ident (filter (\<lambda>d. matchesBlockSelector False (tagName d)) (descendants c)))
            (childNodes editor)))"

definition removeDragGhost :: "dnd \<Rightarrow> dnd" where
  "removeDragGhost s =
     (case dragGhostRef s of
        None \<Rightarrow> s
      | Some ghost \<Rightarrow>
          s\<lparr>bodyChildren := removeAll ghost (bodyChildren s), dragGhostRef := None\<rparr>)"

definition updateGhostPosition :: "real \<Rightarrow> real \<Rightarrow> dnd \<Rightarrow> dnd" where
  "updateGhostPosition x y s =
     (case dragGhostRef s of
        None \<Rightarrow> s
      | Some ghost \<Rightarrow> s\<lparr>ghostPosition := Some (x + 10, y + 10)\<rparr>)"

text \<open>
  \<open>handleDragStart\<close>; the second argument is the handle of the \<open>div\<close> that
  \<open>createDragGhost\<close> creates.
\<close>

definition handleDragStart :: "element \<Rightarrow> element \<Rightarrow> real \<Rightarrow> real \<Rightarrow> dnd \<Rightarrow> dnd" where
  "handleDragStart e ghost clientX clientY s =
     (case findBlockParent s e of
        None \<Rightarrow> s
      | Some block \<Rightarrow>
          let s1 = s\<lparr>bodyChildren := bodyChildren s @ [ghost], dragGhostRef := Some ghost\<rparr>;
              s2 = updateGhostPosition clientX clientY s1;
              s3 = s2\<lparr>classList := (classList s2)(block := insert ''dragging'' (classList s2 block))\<rparr>
          in s3\<lparr>dragState :=
                 \<lparr>isDragging = True, draggedElement = Some block, dropIndicatorY = None,
                  dropTarget = None, dropPosition = None\<rparr>\<rparr>)"

definition handleDragMove :: "real \<Rightarrow> real \<Rightarrow> dnd \<Rightarrow> dnd" where
  "handleDragMove clientX clientY s =
     (case draggedElement (dragState s) of
        None \<Rightarrow> s
      | Some dragged \<Rightarrow>
          if \<not> isDragging (dragState s) then s
          else
            let s1 = updateGhostPosition clientX clientY s;
                (target, pos, indicatorY) =
                  calculateDropPosition (layout s1) clientY (getBlockElements s1) dragged
            in s1\<lparr>dragState := (dragState s1)
                   \<lparr>dropTarget := target, dropPosition := pos, dropIndicatorY := indicatorY\<rparr>\<rparr>)"

text \<open>
  \<open>handleDragEnd\<close> either returns, or an exception of \<open>insertBefore\<close> leaves it
  before \<open>setDragState\<close> is reached; both outcomes carry the state that is left.
  A target without a parent makes \<open>parentElement?.insertBefore\<close> do nothing.
\<close>

datatype outcome = Returned dnd | Thrown dom_exception dnd

definition moveBlock :: "node \<Rightarrow> element \<Rightarrow> element \<Rightarrow> position \<Rightarrow> dom_exception + node" where
  "moveBlock editor dragged target pos =
     (case parentElement editor target of
        None \<Rightarrow> Inr editor
      | Some parent \<Rightarrow>
          (case pos of
             Before \<Rightarrow> insertBefore editor parent dragged (Some target)
           | After \<Rightarrow> insertBefore editor parent dragged (nextSibling editor target)))"

definition handleDragEnd :: "dnd \<Rightarrow> outcome" where
  "handleDragEnd s =
     (if \<not> isDragging (dragState s) then Returned s
      else
        let dragged = draggedElement (dragState s);
            target = dropTarget (dragState s);
            pos = dropPosition (dragState s);
            s1 = (case dragged of
                    None \<Rightarrow> s
                  | Some d \<Rightarrow> s\<lparr>classList := (classList s)(d := classList s d - {''dragging''})\<rparr>);
            s2 = removeDragGhost s1
        in case (dragged, target, pos, editorRef s2) of
             (Some d, Some t, Some p, Some editor) \<Rightarrow>
               (case moveBlock editor d t p of
                  Inl e \<Rightarrow> Thrown e s2
                | Inr editor' \<Rightarrow>
                    Returned (s2\<lparr>editorRef := Some editor', contentChanges := contentChanges s2 + 1,
                                 dragState := idleDragState\<rparr>))
           | _ \<Rightarrow> Returned (s2\<lparr>dragState := idleDragState\<rparr>))"

text \<open>The exception of an outcome, if any, and the state that it leaves.\<close>

definition thrown :: "outcome \<Rightarrow> dom_exception option" where
  "thrown r = (case r of Returned s \<Rightarrow> None | Thrown e s \<Rightarrow> Some e)"

definition stateAfter :: "outcome \<Rightarrow> dnd" where
  "stateAfter r = (case r of Returned s \<Rightarrow> s | Thrown e s \<Rightarrow> s)"

section \<open>Editor controller (WysiwygEditor component)\<close>

text \<open>
  \<open>!html\<close> on a string is true exactly for the empty string. The class
  \<open>wysiwyg-editor--empty\<close>, which displays the placeholder, is put on the editable
  root exactly when \<open>isEmpty\<close> holds.
\<close>

definition isEmpty :: "string \<Rightarrow> bool" where
  "isEmpty html \<longleftrightarrow> html = [] \<or> html = ''<br>'' \<or> html = ''<p><br></p>''"

definition editorClassName :: "string \<Rightarrow> string" where
  "editorClassName html =
     ''wysiwyg-editor '' @ (if isEmpty html then ''wysiwyg-editor--empty'' else [])"

text \<open>
  Two pages used as concrete inputs: three paragraphs, each 50 pixels high; and a
  paragraph followed by a figure that holds an image and a caption.
\<close>

definition examplePage :: dnd where
  "examplePage =
     \<lparr>dragState = idleDragState, dragGhostRef = None, ghostPosition = None,
      editorRef = Some (Node 0 ''div'' [Node 1 ''p'' [], Node 2 ''p'' [], Node 3 ''p'' []]),
      bodyChildren = [0],
      classList = (\<lambda>e. {}),
      layout = (\<lambda>e. \<lparr>top_px = 100 * real e, bottom_px = 100 * real e + 50, height_px = 50\<rparr>),
      contentChanges = 0\<rparr>"

definition figurePage :: dnd where
  "figurePage =
     \<lparr>dragState = idleDragState, dragGhostRef = None, ghostPosition = None,
      editorRef = Some (Node 0 ''div''
        [Node 1 ''p'' [], Node 2 ''figure'' [Node 3 ''img'' [], Node 4 ''figcaption'' []]]),
      bodyChildren = [0],
      classList = (\<lambda>e. {}),
      layout = (\<lambda>e. if e = 1 then \<lparr>top_px = 0, bottom_px = 50, height_px = 50\<rparr>
                   else if e = 2 then \<lparr>top_px = 100, bottom_px = 400, height_px = 300\<rparr>
                   else if e = 3 then \<lparr>top_px = 100, bottom_px = 350, height_px = 250\<rparr>
                   else \<lparr>top_px = 350, bottom_px = 400, height_px = 50\<rparr>),
      contentChanges = 0\<rparr>"

section \<open>Format command executor: setFontSize (src/hooks/useTextFormatting.ts)\<close>

text \<open>
  Strings are lists of 8-bit characters. White space is what \<open>\s\<close>, \<open>trim()\<close> and
  \<open>parseInt\<close> skip: tab, line feed, vertical tab, form feed, carriage return, space
  and the no-break space.
\<close>

definition isWhiteSpace :: "char \<Rightarrow> bool" where
  "isWhiteSpace c \<longleftrightarrow> (of_char c :: nat) \<in> {9, 10, 11, 12, 13, 32, 160}"

text \<open>
  \<open>parseInt(size)\<close> of JavaScript, with no radix given: leading white space and a sign
  are skipped, \<open>0x\<close> selects radix 16, and the longest prefix of digits is read;
  \<open>NaN\<close> (\<open>None\<close>) when there is no digit. The result is only compared with the
  constants 12 to 32, so the mathematical integer stands for the number.
\<close>

definition digitValue :: "char \<Rightarrow> nat option" where
  "digitValue c =
     (let n = (of_char c :: nat) in
      if 48 \<le> n \<and> n \<le> 57 then Some (n - 48)
      else if 97 \<le> n \<and> n \<le> 122 then Some (n - 87)
      else if 65 \<le> n \<and> n \<le> 90 then Some (n - 55)
      else None)"

fun parseDigits :: "nat \<Rightarrow> string \<Rightarrow> nat option \<Rightarrow> nat option" where
  "parseDigits radix [] acc = acc"
| "parseDigits radix (c # cs) acc =
     (case digitValue c of
        None \<Rightarrow> acc
      | Some d \<Rightarrow>
          if d < radix
          then parseDigits radix cs (Some (radix * (case acc of None \<Rightarrow> 0 | Some a \<Rightarrow> a) + d))
          else acc)"

definition parseInt :: "string \<Rightarrow> int option" where
  "parseInt str =
     (let s = dropWhile isWhiteSpace str;
          (sign, s1) = (case s of
                          [] \<Rightarrow> (1, s)
                        | c # r \<Rightarrow> if c = CHR ''-'' then (- 1, r)
                                   else if c = CHR ''+'' then (1, r) else (1, s));
          (radix, s2) = (case s1 of
                           c # x # r \<Rightarrow>
                             if c = CHR ''0'' \<and> (x = CHR ''x'' \<or> x = CHR ''X'') then (16, r)
                             else (10, s1)
                         | _ \<Rightarrow> (10, s1))
      in map_option (\<lambda>n. sign * int n) (parseDigits radix s2 None))"

text \<open>
  The chain of comparisons in the \<open>catch\<close> block. Every comparison with \<open>NaN\<close> is
  false, so \<open>NaN\<close> reaches the final \<open>else\<close>.
\<close>

definition fontSizeLevel :: "int option \<Rightarrow> nat" where
  "fontSizeLevel sizeNum =
     (case sizeNum of
        None \<Rightarrow> 7
      | Some n \<Rightarrow>
          if n \<le> 12 then 1
          else if n \<le> 14 then 2
          else if n \<le> 16 then 3
          else if n \<le> 18 then 4
          else if n \<le> 24 then 5
          else if n \<le> 32 then 6
          else 7)"

text \<open>
  The browser as \<open>setFontSize\<close> sees it: whether the editable root exists and has the
  focus, the selection (\<open>None\<close> for a \<open>null\<close> selection, else \<open>rangeCount\<close> and
  \<open>isCollapsed\<close>), and what \<open>range.surroundContents(span)\<close> does on the current
  range: it succeeds (\<open>None\<close>) or throws a DOM exception.
\<close>

record browser =
  editorPresent :: bool
  editorFocused :: bool
  selection :: "(nat \<times> bool) option"
  surroundContents :: "dom_exception option"

text \<open>What the function does to the page, in order.\<close>

datatype command =
    Focus
  | SurroundContents string
  | RemoveAllRanges
  | AddRangeOfSpan
  | ExecCommandFontSize nat
  | OnContentChange

definition try_catch :: "dom_exception + 'a \<Rightarrow> (dom_exception \<Rightarrow> dom_exception + 'a) \<Rightarrow> dom_exception + 'a" where
  "try_catch body handler = (case body of Inl e \<Rightarrow> handler e | Inr x \<Rightarrow> Inr x)"

definition setFontSize :: "browser \<Rightarrow> string \<Rightarrow> dom_exception + command list" where
  "setFontSize env fontSize =
     (let focus = (if editorPresent env \<and> \<not> editorFocused env then [Focus] else []);
          selected = (case selection env of
                        None \<Rightarrow> False
                      | Some (rangeCount, isCollapsed) \<Rightarrow> rangeCount > 0 \<and> \<not> isCollapsed)
      in if selected
         then
           case try_catch
                  (case surroundContents env of
                     Some e \<Rightarrow> Inl e
                   | None \<Rightarrow> Inr [SurroundContents fontSize, RemoveAllRanges, AddRangeOfSpan])
                  (\<lambda>e. Inr [ExecCommandFontSize (fontSizeLevel (parseInt fontSize))]) of
             Inl e \<Rightarrow> Inl e
           | Inr done \<Rightarrow> Inr (focus @ done @ [OnContentChange])
         else Inr (focus @ [OnContentChange]))"

text \<open>
  The fixed scale of seven sizes: the constant \<open>SIZES\<close> of the font picker, whose
  values are what the toolbar passes to \<open>setFontSize\<close>.
\<close>

definition SIZES :: "(string \<times> string) list" where
  "SIZES =
     [(''12px'', ''Small''), (''14px'', ''Normal''), (''16px'', ''Medium''), (''18px'', ''Large''),
      (''24px'', ''XL''), (''32px'', ''2XL''), (''48px'', ''3XL'')]"

definition fontSizeSteps :: "int list" where
  "fontSizeSteps = [12, 14, 16, 18, 24, 32, 48]"

text \<open>
  The level in the words of the specification, "the nearest discrete size step": the
  step at the least distance from the requested size (the lower step on a tie).
\<close>

definition spec_nearest_level :: "int \<Rightarrow> nat" where
  "spec_nearest_level n =
     Suc (arg_min_list (\<lambda>i. \<bar>n - fontSizeSteps ! i\<bar>) [0..<length fontSizeSteps])"

definition partialSelection :: browser where
  "partialSelection =
     \<lparr>editorPresent = True, editorFocused = True, selection = Some (1, False),
      surroundContents = Some InvalidStateError\<rparr>"

section \<open>Sanitizer (utils/sanitize)\<close>

subsection \<open>The configuration written in the source\<close>

definition ALLOWED_TAGS :: "string list" where
  "ALLOWED_TAGS =
     [''p'', ''br'', ''span'', ''div'',
      ''strong'', ''b'', ''em'', ''i'', ''u'', ''s'', ''strike'', ''del'', ''ins'',
      ''sub'', ''sup'', ''mark'',
      ''h1'', ''h2'', ''h3'', ''h4'', ''h5'', ''h6'',
      ''ul'', ''ol'', ''li'',
      ''a'', ''img'', ''video'', ''source'', ''picture'', ''figure'', ''figcaption'',
      ''table'', ''thead'', ''tbody'', ''tfoot'', ''tr'', ''th'', ''td'', ''caption'',
      ''colgroup'', ''col'',
      ''blockquote'', ''pre'', ''code'', ''hr'',
      ''link'', ''script'',
      ''address'', ''article'', ''aside'', ''details'', ''summary'', ''section'', ''nav'',
      ''header'', ''footer'', ''main'']"

definition ALLOWED_ATTR :: "string list" where
  "ALLOWED_ATTR =
     [''id'', ''class'', ''style'', ''title'', ''lang'', ''dir'',
      ''href'', ''target'', ''rel'',
      ''src'', ''alt'', ''width'', ''height'', ''loading'', ''srcset'', ''sizes'',
      ''crossorigin'',
      ''controls'', ''autoplay'', ''loop'', ''muted'', ''poster'', ''preload'',
      ''colspan'', ''rowspan'', ''scope'', ''headers'',
      ''type'', ''integrity'', ''async'', ''defer'', ''charset'',
      ''data-*'']"

definition isLetter :: "char \<Rightarrow> bool" where
  "isLetter c \<longleftrightarrow>
     (let n = (of_char c :: nat) in (97 \<le> n \<and> n \<le> 122) \<or> (65 \<le> n \<and> n \<le> 90))"

definition toLowerCase :: "char \<Rightarrow> char" where
  "toLowerCase c =
     (let n = (of_char c :: nat) in if 65 \<le> n \<and> n \<le> 90 then char_of (n + 32) else c)"

definition startsWith :: "string \<Rightarrow> string \<Rightarrow> bool" where
  "startsWith s p \<longleftrightarrow> take (length p) s = p"

text \<open>
  The regular expression \<open>ALLOWED_URI_REGEXP\<close> of \<open>sanitizeHtml\<close>, with flag
  \<open>i\<close>: one of the schemes \<open>http\<close>, \<open>https\<close>, \<open>data\<close>, \<open>mailto\<close>,
  \<open>tel\<close> and a colon; or a first character that is no letter; or a non-empty run of
  letters, \<open>+\<close>, \<open>.\<close> and \<open>-\<close> that is followed by the end of the string or by
  a character other than a colon.
\<close>

definition isSchemeChar :: "char \<Rightarrow> bool" where
  "isSchemeChar c \<longleftrightarrow> isLetter c \<or> c = CHR ''+'' \<or> c = CHR ''.'' \<or> c = CHR ''-''"

definition matchesUriRegexp :: "string list \<Rightarrow> string \<Rightarrow> bool" where
  "matchesUriRegexp schemes s \<longleftrightarrow>
     list_ex (\<lambda>scheme. startsWith (map toLowerCase s) (scheme @ '':'')) schemes \<or>
     (s \<noteq> [] \<and> \<not> isLetter (hd s)) \<or>
     (takeWhile isSchemeChar s \<noteq> [] \<and>
      (dropWhile isSchemeChar s = [] \<or> hd (dropWhile isSchemeChar s) \<noteq> CHR '':''))"

definition ALLOWED_URI_REGEXP :: "string \<Rightarrow> bool" where
  "ALLOWED_URI_REGEXP = matchesUriRegexp [''http'', ''https'', ''data'', ''mailto'', ''tel'']"

text \<open>The configuration object handed to \<open>DOMPurify.sanitize\<close>.\<close>

record config =
  allowedTags :: "string list"
  allowedAttr :: "string list"
  allowDataAttr :: bool
  allowedUriRegexp :: "(string \<Rightarrow> bool) option"
  addTags :: "string list"
  addAttr :: "string list"

definition inputConfig :: config where
  "inputConfig =
     \<lparr>allowedTags = ALLOWED_TAGS, allowedAttr = ALLOWED_ATTR, allowDataAttr = True,
      allowedUriRegexp = Some ALLOWED_URI_REGEXP,
      addTags = [''link'', ''script''],
      addAttr = [''crossorigin'', ''integrity'', ''async'', ''defer'', ''charset'', ''type'']\<rparr>"

definition outputConfig :: config where
  "outputConfig =
     \<lparr>allowedTags = ALLOWED_TAGS,
      allowedAttr = filter (\<lambda>attr. \<not> startsWith attr ''data-'') ALLOWED_ATTR,
      allowDataAttr = False, allowedUriRegexp = None, addTags = [], addAttr = []\<rparr>"

subsection \<open>The two sanitizing functions\<close>

text \<open>
  \<open>DOMPurify.sanitize\<close> belongs to a library that is imported; it is the first
  argument of both functions.
\<close>

definition sanitizeHtml :: "(config \<Rightarrow> string \<Rightarrow> string) \<Rightarrow> string \<Rightarrow> string" where
  "sanitizeHtml purify html = purify inputConfig html"

text \<open>
  \<open>.replace(/<p>\s*<\/p>/gi, '')\<close>: every match, from left to right, is removed.
  \<open>emptyParagraphAt s\<close> is the length of a match at the start of \<open>s\<close>.
\<close>

definition emptyParagraphAt :: "string \<Rightarrow> nat option" where
  "emptyParagraphAt s =
     (if map toLowerCase (take 3 s) = ''<p>'' \<and>
         map toLowerCase (take 4 (dropWhile isWhiteSpace (drop 3 s))) = ''</p>''
      then Some (3 + length (takeWhile isWhiteSpace (drop 3 s)) + 4)
      else None)"

fun removeMatches :: "nat \<Rightarrow> string \<Rightarrow> string" where
  "removeMatches k [] = []"
| "removeMatches (Suc k) (c # cs) = removeMatches k cs"
| "removeMatches 0 (c # cs) =
     (case emptyParagraphAt (c # cs) of
        Some n \<Rightarrow> removeMatches (n - 1) cs
      | None \<Rightarrow> c # removeMatches 0 cs)"

definition removeEmptyParagraphs :: "string \<Rightarrow> string" where
  "removeEmptyParagraphs s = removeMatches 0 s"

text \<open>
  \<open>.replace(/<br\s*\/?>\s*$/gi, '')\<close>: the match reaches the end of the string, so
  there is at most one, the leftmost, and the string is cut there.
\<close>

definition trailingBreakAt :: "string \<Rightarrow> bool" where
  "trailingBreakAt s \<longleftrightarrow>
     map toLowerCase (take 3 s) = ''<br'' \<and>
     (let r1 = dropWhile isWhiteSpace (drop 3 s);
          r2 = (if r1 \<noteq> [] \<and> hd r1 = CHR ''/'' then tl r1 else r1)
      in r2 \<noteq> [] \<and> hd r2 = CHR ''>'' \<and> dropWhile isWhiteSpace (tl r2) = [])"

fun removeTrailingBreak :: "string \<Rightarrow> string" where
  "removeTrailingBreak [] = []"
| "removeTrailingBreak (c # cs) =
     (if trailingBreakAt (c # cs) then [] else c # removeTrailingBreak cs)"

definition trim :: "string \<Rightarrow> string" where
  "trim s = rev (dropWhile isWhiteSpace (rev (dropWhile isWhiteSpace s)))"

definition sanitizeForOutput :: "(config \<Rightarrow> string \<Rightarrow> string) \<Rightarrow> string \<Rightarrow> string" where
  "sanitizeForOutput purify html =
     (let cleaned = purify outputConfig html
      in trim (removeTrailingBreak (removeEmptyParagraphs cleaned)))"

text \<open>
  Properties of markup for the statements about the cosmetic passes, on substrings and
  without the functions of the source. An empty paragraph is \<open><p>\<close>, white space and \<open></p>\<close>; a line break
  is \<open><br\<close>, white space, an optional \<open>/\<close> and \<open>>\<close>; the letters in either
  case. A string ends with a line break when a line break is followed by white space
  only up to its end, and with two line breaks when a line break and white space come
  before that one. A string opens an empty paragraph when it ends with a non-empty
  proper beginning of one: \<open><\<close>, \<open><p\<close>, \<open><p>\<close> with white space, and these
  with \<open></\<close> or \<open></p\<close>. The empty paragraphs of a string stand apart when none
  of them comes right after a part of the string that opens one. A string is trimmed
  when it neither begins nor ends with white space.
\<close>

definition isEmptyParagraph :: "string \<Rightarrow> bool" where
  "isEmptyParagraph m \<longleftrightarrow>
     take 3 m \<in> {''<p>'', ''<P>''} \<and>
     dropWhile isWhiteSpace (drop 3 m) \<in> {''</p>'', ''</P>''}"

definition isLineBreak :: "string \<Rightarrow> bool" where
  "isLineBreak t \<longleftrightarrow>
     take 3 t \<in> {''<br'', ''<bR'', ''<Br'', ''<BR''} \<and>
     dropWhile isWhiteSpace (drop 3 t) \<in> {''>'', ''/>''}"

definition containsEmptyParagraph :: "string \<Rightarrow> bool" where
  "containsEmptyParagraph s \<longleftrightarrow>
     list_ex (\<lambda>i. list_ex (\<lambda>n. isEmptyParagraph (take n (drop i s))) [0..<Suc (length s - i)])
       [0..<Suc (length s)]"

definition isFinalLineBreak :: "string \<Rightarrow> bool" where
  "isFinalLineBreak s \<longleftrightarrow>
     list_ex (\<lambda>n. isLineBreak (take n s) \<and> list_all isWhiteSpace (drop n s)) [0..<Suc (length s)]"

definition endsWithBreak :: "string \<Rightarrow> bool" where
  "endsWithBreak s \<longleftrightarrow> list_ex (\<lambda>i. isFinalLineBreak (drop i s)) [0..<Suc (length s)]"

definition endsWithTwoBreaks :: "string \<Rightarrow> bool" where
  "endsWithTwoBreaks s \<longleftrightarrow>
     list_ex (\<lambda>i. list_ex (\<lambda>n. isLineBreak (take n (drop i s)) \<and>
                              isFinalLineBreak (dropWhile isWhiteSpace (drop (i + n) s)))
                [0..<Suc (length s - i)])
       [0..<Suc (length s)]"

definition opensEmptyParagraph :: "string \<Rightarrow> bool" where
  "opensEmptyParagraph u \<longleftrightarrow>
     (let r = rev u;
          opened = (\<lambda>r. take 3 (dropWhile isWhiteSpace r) \<in> {''>p<'', ''>P<''})
      in take 1 r = ''<'' \<or> take 2 r \<in> {''p<'', ''P<''} \<or> opened r \<or>
         take 2 r = ''/<'' \<and> opened (drop 2 r) \<or>
         take 3 r \<in> {''p/<'', ''P/<''} \<and> opened (drop 3 r))"

definition emptyParagraphsApart :: "string \<Rightarrow> bool" where
  "emptyParagraphsApart s \<longleftrightarrow>
     list_all (\<lambda>i. list_all (\<lambda>n. \<not> (isEmptyParagraph (take n (drop i s)) \<and>
                                    opensEmptyParagraph (take i s)))
                 [0..<Suc (length s - i)])
       [0..<Suc (length s)]"

definition isTrimmed :: "string \<Rightarrow> bool" where
  "isTrimmed s \<longleftrightarrow> takeWhile isWhiteSpace s = [] \<and> takeWhile isWhiteSpace (rev s) = []"

subsection \<open>The allow-list pass of the library\<close>

text \<open>
  Modelled from the spec: \<open>DOMPurify.sanitize\<close>, the library function that both
  sanitizing functions call and that is not part of the sources. The specification
  describes it as an allow-list pass: an element whose tag is on the list of allowed
  tags is kept, any other element is dropped; an attribute that is not on the list of
  allowed attributes (every inline \<open>on*\<close> handler) is stripped; an attribute whose
  value fails the expression for allowed URIs is stripped. The model reads markup made
  of text, start tags with attributes and end tags, with the states of the HTML
  tokenizer for them, and writes the kept tokens back the way \<open>innerHTML\<close> does.
  Comments, character references, the raw text of \<open>script\<close> and \<open>style\<close>, and
  the repairs of the tree builder (implied tags, markup moved to the head) are outside
  of it. It is used at concrete inputs only; the general theorems below hold for every
  function in its place.
\<close>

datatype token = Character char | StartTag string "(string \<times> string) list" | EndTag string

type_synonym tag = "bool \<times> string \<times> (string \<times> string) list"

datatype quoting = DoubleQuoted | SingleQuoted | Unquoted

datatype tokenizer_state =
    Data
  | TagOpen
  | EndTagOpen
  | BogusComment
  | TagName bool string
  | BeforeAttributeName tag
  | AttributeName tag string
  | AfterAttributeName tag string
  | BeforeAttributeValue tag string
  | AttributeValue quoting tag string string
  | AfterAttributeValueQuoted tag
  | SelfClosingStartTag tag

definition isHtmlSpace :: "char \<Rightarrow> bool" where
  "isHtmlSpace c \<longleftrightarrow> (of_char c :: nat) \<in> {9, 10, 12, 13, 32}"

definition emit :: "tag \<Rightarrow> token" where
  "emit t = (case t of (closing, name, attrs) \<Rightarrow> if closing then EndTag name else StartTag name attrs)"

text \<open>A second attribute of the same name is ignored.\<close>

definition add_attr :: "tag \<Rightarrow> string \<Rightarrow> string \<Rightarrow> tag" where
  "add_attr t name val =
     (case t of (closing, tname, attrs) \<Rightarrow>
        if name \<in> set (map fst attrs) then t else (closing, tname, attrs @ [(name, val)]))"

definition data_state :: "char \<Rightarrow> token list \<times> tokenizer_state" where
  "data_state c = (if c = CHR ''<'' then ([], TagOpen) else ([Character c], Data))"

definition before_attribute_name_state :: "tag \<Rightarrow> char \<Rightarrow> token list \<times> tokenizer_state" where
  "before_attribute_name_state t c =
     (if isHtmlSpace c then ([], BeforeAttributeName t)
      else if c = CHR ''/'' then ([], SelfClosingStartTag t)
      else if c = CHR ''>'' then ([emit t], Data)
      else ([], AttributeName t [toLowerCase c]))"

fun tokenizer_step :: "tokenizer_state \<Rightarrow> char \<Rightarrow> token list \<times> tokenizer_state" where
  "tokenizer_step Data c = data_state c"
| "tokenizer_step TagOpen c =
     (if c = CHR ''/'' then ([], EndTagOpen)
      else if isLetter c then ([], TagName False [toLowerCase c])
      else if c = CHR ''!'' \<or> c = CHR ''?'' then ([], BogusComment)
      else (Character CHR ''<'' # fst (data_state c), snd (data_state c)))"
| "tokenizer_step EndTagOpen c =
     (if isLetter c then ([], TagName True [toLowerCase c])
      else if c = CHR ''>'' then ([], Data)
      else ([], BogusComment))"
| "tokenizer_step BogusComment c = (if c = CHR ''>'' then ([], Data) else ([], BogusComment))"
| "tokenizer_step (TagName closing name) c =
     (if isHtmlSpace c then ([], BeforeAttributeName (closing, name, []))
      else if c = CHR ''/'' then ([], SelfClosingStartTag (closing, name, []))
      else if c = CHR ''>'' then ([emit (closing, name, [])], Data)
      else ([], TagName closing (name @ [toLowerCase c])))"
| "tokenizer_step (BeforeAttributeName t) c = before_attribute_name_state t c"
| "tokenizer_step (AttributeName t name) c =
     (if isHtmlSpace c then ([], AfterAttributeName t name)
      else if c = CHR ''/'' then ([], SelfClosingStartTag (add_attr t name []))
      else if c = CHR ''>'' then ([emit (add_attr t name [])], Data)
      else if c = CHR ''='' then ([], BeforeAttributeValue t name)
      else ([], AttributeName t (name @ [toLowerCase c])))"
| "tokenizer_step (AfterAttributeName t name) c =
     (if isHtmlSpace c then ([], AfterAttributeName t name)
      else if c = CHR ''/'' then ([], SelfClosingStartTag (add_attr t name []))
      else if c = CHR ''='' then ([], BeforeAttributeValue t name)
      else if c = CHR ''>'' then ([emit (add_attr t name [])], Data)
      else ([], AttributeName (add_attr t name []) [toLowerCase c]))"
| "tokenizer_step (BeforeAttributeValue t name) c =
     (if isHtmlSpace c then ([], BeforeAttributeValue t name)
      else if c = CHR 0x22 then ([], AttributeValue DoubleQuoted t name [])
      else if c = CHR 0x27 then ([], AttributeValue SingleQuoted t name [])
      else if c = CHR ''>'' then ([emit (add_attr t name [])], Data)
      else ([], AttributeValue Unquoted t name [c]))"
| "tokenizer_step (AttributeValue DoubleQuoted t name val) c =
     (if c = CHR 0x22 then ([], AfterAttributeValueQuoted (add_attr t name val))
      else ([], AttributeValue DoubleQuoted t name (val @ [c])))"
| "tokenizer_step (AttributeValue SingleQuoted t name val) c =
     (if c = CHR 0x27 then ([], AfterAttributeValueQuoted (add_attr t name val))
      else ([], AttributeValue SingleQuoted t name (val @ [c])))"
| "tokenizer_step (AttributeValue Unquoted t name val) c =
     (if isHtmlSpace c then ([], BeforeAttributeName (add_attr t name val))
      else if c = CHR ''>'' then ([emit (add_attr t name val)], Data)
      else ([], AttributeValue Unquoted t name (val @ [c])))"
| "tokenizer_step (AfterAttributeValueQuoted t) c =
     (if isHtmlSpace c then ([], BeforeAttributeName t)
      else if c = CHR ''/'' then ([], SelfClosingStartTag t)
      else if c = CHR ''>'' then ([emit t], Data)
      else before_attribute_name_state t c)"
| "tokenizer_step (SelfClosingStartTag t) c =
     (if c = CHR ''>'' then ([emit t], Data) else before_attribute_name_state t c)"

fun tokenize :: "tokenizer_state \<Rightarrow> string \<Rightarrow> token list" where
  "tokenize st [] =
     (case st of
        TagOpen \<Rightarrow> [Character CHR ''<'']
      | EndTagOpen \<Rightarrow> [Character CHR ''<'', Character CHR ''/'']
      | _ \<Rightarrow> [])"
| "tokenize st (c # cs) = fst (tokenizer_step st c) @ tokenize (snd (tokenizer_step st c)) cs"

text \<open>The checks of the library on one attribute, with its default lists.\<close>

definition URI_SAFE_ATTRIBUTES :: "string list" where
  "URI_SAFE_ATTRIBUTES =
     [''alt'', ''class'', ''for'', ''id'', ''label'', ''name'', ''pattern'', ''placeholder'',
      ''role'', ''summary'', ''title'', ''value'', ''style'', ''xmlns'']"

definition DATA_URI_TAGS :: "string list" where
  "DATA_URI_TAGS = [''audio'', ''video'', ''img'', ''source'', ''image'', ''track'']"

definition FORBID_CONTENTS :: "string list" where
  "FORBID_CONTENTS =
     [''annotation-xml'', ''audio'', ''colgroup'', ''desc'', ''foreignobject'', ''head'',
      ''iframe'', ''math'', ''mi'', ''mn'', ''mo'', ''ms'', ''mtext'', ''noembed'',
      ''noframes'', ''noscript'', ''plaintext'', ''script'', ''style'', ''svg'',
      ''template'', ''thead'', ''title'', ''video'', ''xmp'']"

definition DEFAULT_URI_REGEXP :: "string \<Rightarrow> bool" where
  "DEFAULT_URI_REGEXP =
     matchesUriRegexp [''ftp'', ''ftps'', ''http'', ''https'', ''mailto'', ''tel'', ''callto'',
       ''sms'', ''cid'', ''xmpp'', ''matrix'']"

definition isWordChar :: "char \<Rightarrow> bool" where
  "isWordChar c \<longleftrightarrow>
     isLetter c \<or> (48 \<le> (of_char c :: nat) \<and> (of_char c :: nat) \<le> 57) \<or> c = CHR ''_''"

definition isDataAttr :: "string \<Rightarrow> bool" where
  "isDataAttr name \<longleftrightarrow>
     startsWith name ''data-'' \<and> drop 5 name \<noteq> [] \<and>
     list_all (\<lambda>c. isWordChar c \<or> c = CHR ''-'' \<or> c = CHR ''.'' \<or> 183 \<le> (of_char c :: nat))
       (drop 5 name)"

definition isAriaAttr :: "string \<Rightarrow> bool" where
  "isAriaAttr name \<longleftrightarrow>
     startsWith name ''aria-'' \<and> drop 5 name \<noteq> [] \<and>
     list_all (\<lambda>c. isWordChar c \<or> c = CHR ''-'') (drop 5 name)"

definition isAttrWhitespace :: "char \<Rightarrow> bool" where
  "isAttrWhitespace c \<longleftrightarrow> (of_char c :: nat) \<le> 32 \<or> (of_char c :: nat) = 160"

definition isValidAttribute :: "config \<Rightarrow> string \<Rightarrow> string \<Rightarrow> string \<Rightarrow> bool" where
  "isValidAttribute cfg lcTag lcName val =
     (if allowDataAttr cfg \<and> isDataAttr lcName then True
      else if isAriaAttr lcName then True
      else if lcName \<notin> set (allowedAttr cfg @ addAttr cfg) then False
      else if lcName \<in> set URI_SAFE_ATTRIBUTES then True
      else if (case allowedUriRegexp cfg of Some r \<Rightarrow> r | None \<Rightarrow> DEFAULT_URI_REGEXP)
                (filter (\<lambda>c. \<not> isAttrWhitespace c) val) then True
      else if (lcName = ''src'' \<or> lcName = ''xlink:href'' \<or> lcName = ''href'') \<and>
              lcTag \<noteq> ''script'' \<and> startsWith val ''data:'' \<and> lcTag \<in> set DATA_URI_TAGS
           then True
      else val = [])"

text \<open>
  The pass over the tokens. The second argument is set while the content of a dropped
  element is dropped with it: the tag waited for and the number of nested start tags
  of the same name.
\<close>

definition VOID_ELEMENTS :: "string list" where
  "VOID_ELEMENTS =
     [''area'', ''base'', ''br'', ''col'', ''embed'', ''hr'', ''img'', ''input'', ''link'',
      ''meta'', ''source'', ''track'', ''wbr'']"

fun sanitizeTokens :: "config \<Rightarrow> (string \<times> nat) option \<Rightarrow> token list \<Rightarrow> token list" where
  "sanitizeTokens cfg skipping [] = []"
| "sanitizeTokens cfg None (Character c # ts) = Character c # sanitizeTokens cfg None ts"
| "sanitizeTokens cfg None (StartTag name attrs # ts) =
     (if name \<in> set (allowedTags cfg @ addTags cfg)
      then StartTag name (filter (\<lambda>(a, v). isValidAttribute cfg name a v) attrs)
             # sanitizeTokens cfg None ts
      else if name \<in> set FORBID_CONTENTS \<and> name \<notin> set VOID_ELEMENTS
      then sanitizeTokens cfg (Some (name, 0)) ts
      else sanitizeTokens cfg None ts)"
| "sanitizeTokens cfg None (EndTag name # ts) =
     (if name \<in> set (allowedTags cfg @ addTags cfg)
      then EndTag name # sanitizeTokens cfg None ts
      else sanitizeTokens cfg None ts)"
| "sanitizeTokens cfg (Some (name, depth)) (Character c # ts) =
     sanitizeTokens cfg (Some (name, depth)) ts"
| "sanitizeTokens cfg (Some (name, depth)) (StartTag other attrs # ts) =
     sanitizeTokens cfg (Some (name, if other = name then Suc depth else depth)) ts"
| "sanitizeTokens cfg (Some (name, depth)) (EndTag other # ts) =
     (if other = name
      then (case depth of
              0 \<Rightarrow> sanitizeTokens cfg None ts
            | Suc d \<Rightarrow> sanitizeTokens cfg (Some (name, d)) ts)
      else sanitizeTokens cfg (Some (name, depth)) ts)"

text \<open>Writing the tokens back, as the serialization of \<open>innerHTML\<close> does.\<close>

definition escapeAttribute :: "string \<Rightarrow> string" where
  "escapeAttribute val = concat (map (\<lambda>c. if c = CHR 0x22 then ''&quot;'' else [c]) val)"

fun serializeToken :: "token \<Rightarrow> string" where
  "serializeToken (Character c) =
     (if c = CHR ''<'' then ''&lt;'' else if c = CHR ''>'' then ''&gt;'' else [c])"
| "serializeToken (StartTag name attrs) =
     ''<'' @ name @
     concat (map (\<lambda>(a, v). '' '' @ a @ ''='' @ [CHR 0x22] @ escapeAttribute v @ [CHR 0x22]) attrs)
     @ ''>''"
| "serializeToken (EndTag name) =
     (if name \<in> set VOID_ELEMENTS then [] else ''</'' @ name @ ''>'')"

definition DOMPurify_sanitize :: "config \<Rightarrow> string \<Rightarrow> string" where
  "DOMPurify_sanitize cfg dirty =
     concat (map serializeToken (sanitizeTokens cfg None (tokenize Data dirty)))"

text \<open>The scenario of a scripted input, and the page that the demo application loads.\<close>

definition scriptedInput :: string where
  "scriptedInput = ''<p>Hi</p><script>alert(1)</script>''"

definition dangerousHtml :: string where
  "dangerousHtml =
     ''<h1>Sanitized</h1>'' @
     ''<script>alert(1)</script>'' @
     ''<p onclick='' @ [CHR 0x22] @ ''alert(2)'' @ [CHR 0x22] @ ''>This had an onclick handler</p>'' @
     ''<a href='' @ [CHR 0x22] @ ''javascript:alert(3)'' @ [CHR 0x22] @ ''>link</a>'' @
     ''<p>safe <strong>bold</strong></p>''"

section \<open>Verification: history manager\<close>

subsection \<open>Basic facts\<close>

lemma record_commit_fires:
  "debounceMs opts \<le> snd vd \<Longrightarrow>
   record_commit opts vd h =
     timerCallback opts (fst vd) (h\<lparr>currentValue := fst vd, debounceTimer := None\<rparr>)"
  by (simp add: record_commit_def elapse_def pushToHistory_def)

lemma record_commit_distinct:
  assumes "debounceMs opts \<le> snd vd" and "fst vd \<noteq> lastPushedValue h"
  shows "undoStack (record_commit opts vd h) =
           (if length (undoStack h) < maxHistory opts
            then undoStack h @ [lastPushedValue h]
            else tl (undoStack h @ [lastPushedValue h]))"
    and "redoStack (record_commit opts vd h) = []"
    and "lastPushedValue (record_commit opts vd h) = fst vd"
    and "currentValue (record_commit opts vd h) = fst vd"
    and "debounceTimer (record_commit opts vd h) = None"
  using assms by (auto simp: record_commit_fires timerCallback_def Let_def)

text \<open>
  A recording of the value that is already committed fires its timeout and returns at
  the guard: both stacks stay as they were.
\<close>

lemma record_commit_same:
  assumes "debounceMs opts \<le> snd vd" and "fst vd = lastPushedValue h"
  shows "undoStack (record_commit opts vd h) = undoStack h"
    and "redoStack (record_commit opts vd h) = redoStack h"
    and "lastPushedValue (record_commit opts vd h) = lastPushedValue h"
  using assms by (auto simp: record_commit_fires timerCallback_def)

subsection \<open>The two stacks share one capacity\<close>

lemma within_capacity_timerCallback:
  "within_capacity opts h \<Longrightarrow> within_capacity opts (timerCallback opts v h)"
  by (auto simp: within_capacity_def timerCallback_def Let_def)

lemma within_capacity_update [simp]:
  "within_capacity opts (h\<lparr>debounceTimer := t\<rparr>) = within_capacity opts h"
  "within_capacity opts (h\<lparr>currentValue := c\<rparr>) = within_capacity opts h"
  by (simp_all add: within_capacity_def)

lemma within_capacity_step:
  "within_capacity opts h \<Longrightarrow> within_capacity opts (step opts e h)"
proof (cases e)
  case (PushToHistory v)
  assume "within_capacity opts h"
  then show ?thesis using PushToHistory by (simp add: pushToHistory_def)
next
  case (Elapse dt)
  assume "within_capacity opts h"
  then show ?thesis using Elapse
    by (auto simp: elapse_def within_capacity_timerCallback split: option.splits)
next
  case Undo
  assume "within_capacity opts h"
  then show ?thesis using Undo
    by (cases "undoStack h") (auto simp: undo_def within_capacity_def Let_def)
next
  case Redo
  assume "within_capacity opts h"
  then show ?thesis using Redo
    by (cases "redoStack h") (auto simp: redo_def within_capacity_def Let_def)
next
  case (Reset v)
  then show ?thesis by (simp add: reset_def within_capacity_def)
qed

lemma within_capacity_run:
  "within_capacity opts h \<Longrightarrow> within_capacity opts (run opts es h)"
  by (induction es arbitrary: h) (simp_all add: within_capacity_step)

lemma within_capacity_useHistory: "within_capacity opts (useHistory v0)"
  by (simp add: within_capacity_def useHistory_def)

text \<open>
  Claim C4 (history bound). Whatever calls of \<open>pushToHistory\<close>, \<open>undo\<close>,
  \<open>redo\<close> and \<open>reset\<close> are made on a fresh hook, and however time passes between
  them, the undo stack never holds more than \<open>maxHistory\<close> entries; \<open>redo\<close> needs no
  check of its own, because every entry it moves to the undo stack was taken from there
  by an \<open>undo\<close>. A committed recording of a new value appends the committed value, and
  when the stack was full it drops the oldest entry.
\<close>

theorem history_bound:
  assumes "debounceMs opts \<le> dt"
    and "v \<noteq> lastPushedValue (run opts es (useHistory v0))"
  shows "length (undoStack (run opts es (useHistory v0))) \<le> maxHistory opts \<and>
         undoStack (record_commit opts (v, dt) (run opts es (useHistory v0))) =
           (if length (undoStack (run opts es (useHistory v0))) < maxHistory opts
            then undoStack (run opts es (useHistory v0)) @
                   [lastPushedValue (run opts es (useHistory v0))]
            else tl (undoStack (run opts es (useHistory v0)) @
                   [lastPushedValue (run opts es (useHistory v0))])) \<and>
         length (undoStack (record_commit opts (v, dt) (run opts es (useHistory v0))))
           \<le> maxHistory opts"
proof -
  let ?h = "run opts es (useHistory v0)"
  have cap: "within_capacity opts ?h"
    by (rule within_capacity_run [OF within_capacity_useHistory])
  then have bound: "length (undoStack ?h) \<le> maxHistory opts"
    by (simp add: within_capacity_def)
  have pushed: "undoStack (record_commit opts (v, dt) ?h) =
          (if length (undoStack ?h) < maxHistory opts
           then undoStack ?h @ [lastPushedValue ?h]
           else tl (undoStack ?h @ [lastPushedValue ?h]))"
    using assms by (simp add: record_commit_distinct(1))
  have "length (undoStack (record_commit opts (v, dt) ?h)) \<le> maxHistory opts"
    unfolding pushed using bound by auto
  with bound pushed show ?thesis by simp
qed

theorem history_bound_witness:
  "debounceMs smallOptions \<le> 500 \<and>
   ''d'' \<noteq> lastPushedValue
     (run smallOptions
        [PushToHistory ''b'', Elapse 500, PushToHistory ''c'', Elapse 600, Undo, Redo]
        (useHistory ''a'')) \<and>
   length (undoStack
     (run smallOptions
        [PushToHistory ''b'', Elapse 500, PushToHistory ''c'', Elapse 600, Undo, Redo]
        (useHistory ''a''))) \<le> maxHistory smallOptions \<and>
   undoStack (record_commit smallOptions (''d'', 500)
     (run smallOptions
        [PushToHistory ''b'', Elapse 500, PushToHistory ''c'', Elapse 600, Undo, Redo]
        (useHistory ''a''))) = [''b'', ''c'']"
  using history_bound [of smallOptions 500 "''d''"
      "[PushToHistory ''b'', Elapse 500, PushToHistory ''c'', Elapse 600, Undo, Redo]" "''a''"]
  by (simp add: smallOptions_def useHistory_def pushToHistory_def elapse_def
      timerCallback_def undo_def redo_def record_commit_def Let_def)

subsection \<open>Undo and redo are inverse\<close>

lemma redo_undo:
  "undoStack h \<noteq> [] \<Longrightarrow> currentValue h = lastPushedValue h \<Longrightarrow>
   redo (snd (undo h)) = (Some (lastPushedValue h), h)"
  by (simp add: undo_def redo_def Let_def)

lemma undo_keeps_current:
  "currentValue h = lastPushedValue h \<Longrightarrow>
   currentValue (snd (undo h)) = lastPushedValue (snd (undo h))"
  by (simp add: undo_def Let_def)

lemma undo_length:
  "undoStack h \<noteq> [] \<Longrightarrow> length (undoStack (snd (undo h))) = length (undoStack h) - 1"
  by (simp add: undo_def Let_def)

lemma snd_redo_times_end:
  "snd (redo (snd (redo_times n h))) = snd (redo_times n (snd (redo h)))"
  by (induction n arbitrary: h) (simp_all add: split_def Let_def)

lemma fst_redo_times_end:
  "fst (redo_times n h) @ [fst (redo (snd (redo_times n h)))] =
   fst (redo h) # fst (redo_times n (snd (redo h)))"
  by (induction n arbitrary: h) (simp_all add: split_def Let_def)

lemma redo_times_Suc_end:
  "redo_times (Suc n) h =
     (fst (redo_times n h) @ [fst (redo (snd (redo_times n h)))],
      snd (redo (snd (redo_times n h))))"
  by (simp add: split_def Let_def snd_redo_times_end fst_redo_times_end)

lemma redo_times_undo_times:
  "n \<le> length (undoStack h) \<Longrightarrow> currentValue h = lastPushedValue h \<Longrightarrow>
   snd (redo_times n (snd (undo_times n h))) = h \<and>
   (0 < n \<longrightarrow> last (fst (redo_times n (snd (undo_times n h)))) = Some (lastPushedValue h))"
proof (induction n arbitrary: h)
  case 0
  show ?case by simp
next
  case (Suc n)
  let ?u = "snd (undo h)"
  from Suc.prems have ne: "undoStack h \<noteq> []" by auto
  have len: "n \<le> length (undoStack ?u)"
    using Suc.prems ne by (simp add: undo_length)
  have cur: "currentValue ?u = lastPushedValue ?u"
    using Suc.prems by (simp add: undo_keeps_current)
  have restored: "snd (redo_times n (snd (undo_times n ?u))) = ?u"
    using Suc.IH [OF len cur] by simp
  have u: "snd (undo_times (Suc n) h) = snd (undo_times n ?u)"
    by (simp add: split_def Let_def)
  have r: "redo_times (Suc n) (snd (undo_times n ?u)) =
             (fst (redo_times n (snd (undo_times n ?u))) @ [Some (lastPushedValue h)], h)"
    using restored redo_undo [OF ne Suc.prems(2)]
    by (simp add: redo_times_Suc_end del: redo_times.simps(2))
  show ?case unfolding u r by simp
qed

lemma record_all_committed:
  assumes "\<forall>vd\<in>set vds. debounceMs opts \<le> snd vd"
    and "distinct_adj (lastPushedValue h # map fst vds)"
    and "length (undoStack h) \<le> maxHistory opts"
  shows "length (undoStack (record_all opts vds h)) =
           min (maxHistory opts) (length (undoStack h) + length vds) \<and>
         lastPushedValue (record_all opts vds h) = last (lastPushedValue h # map fst vds) \<and>
         currentValue (record_all opts vds h) = last (currentValue h # map fst vds)"
  using assms
proof (induction vds arbitrary: h)
  case Nil
  then show ?case by simp
next
  case (Cons vd vds)
  let ?h = "record_commit opts vd h"
  have d: "debounceMs opts \<le> snd vd" and ne: "fst vd \<noteq> lastPushedValue h"
    using Cons.prems by auto
  have lp: "lastPushedValue ?h = fst vd" and cv: "currentValue ?h = fst vd"
    using record_commit_distinct [OF d ne] by simp_all
  have len: "length (undoStack ?h) = min (maxHistory opts) (length (undoStack h) + 1)"
    using record_commit_distinct(1) [OF d ne] Cons.prems(3) by auto
  have "length (undoStack (record_all opts vds ?h)) =
          min (maxHistory opts) (length (undoStack ?h) + length vds) \<and>
        lastPushedValue (record_all opts vds ?h) = last (lastPushedValue ?h # map fst vds) \<and>
        currentValue (record_all opts vds ?h) = last (currentValue ?h # map fst vds)"
  proof (rule Cons.IH)
    show "\<forall>vd\<in>set vds. debounceMs opts \<le> snd vd" using Cons.prems by simp
    show "distinct_adj (lastPushedValue ?h # map fst vds)"
      using Cons.prems(2) lp by simp
    show "length (undoStack ?h) \<le> maxHistory opts" using len by simp
  qed
  then show ?case using len lp cv by (auto simp: min_def)
qed

lemma redoStack_record_all:
  assumes "vds \<noteq> []" and "\<forall>vd\<in>set vds. debounceMs opts \<le> snd vd"
    and "distinct_adj (lastPushedValue h # map fst vds)"
  shows "redoStack (record_all opts vds h) = []"
  using assms
proof (induction vds arbitrary: h)
  case Nil
  then show ?case by simp
next
  case (Cons vd vds)
  have d: "debounceMs opts \<le> snd vd" and ne: "fst vd \<noteq> lastPushedValue h"
    using Cons.prems by auto
  show ?case
  proof (cases "vds = []")
    case True
    then show ?thesis using record_commit_distinct(2) [OF d ne] by simp
  next
    case False
    have "redoStack (record_all opts vds (record_commit opts vd h)) = []"
      using False Cons.prems record_commit_distinct(3) [OF d ne]
      by (intro Cons.IH) auto
    then show ?thesis by simp
  qed
qed

lemma length_fst_redo_times [simp]: "length (fst (redo_times n h)) = n"
  by (induction n arbitrary: h) (simp_all add: split_def Let_def)

lemma redo_times_exhausted:
  "length (redoStack h) < n \<Longrightarrow> last (fst (redo_times n h)) = None"
proof (induction n arbitrary: h)
  case 0
  then show ?case by simp
next
  case (Suc n)
  show ?case
  proof (cases "n = 0")
    case True
    with Suc.prems show ?thesis by (simp add: split_def Let_def redo_def)
  next
    case False
    then have ne: "fst (redo_times n (snd (redo h))) \<noteq> []"
      by (metis length_fst_redo_times length_0_conv)
    have "length (redoStack (snd (redo h))) < n"
      using Suc.prems False by (cases "redoStack h") (auto simp: redo_def Let_def)
    then have "last (fst (redo_times n (snd (redo h)))) = None"
      by (rule Suc.IH)
    then show ?thesis using ne by (simp add: split_def Let_def)
  qed
qed

lemma redoStack_undo_times:
  "length (redoStack (snd (undo_times n h))) \<le> length (redoStack h) + length (undoStack h)"
proof (induction n arbitrary: h)
  case 0
  show ?case by simp
next
  case (Suc n)
  have "length (redoStack (snd (undo h))) + length (undoStack (snd (undo h)))
          \<le> length (redoStack h) + length (undoStack h)"
    by (cases "undoStack h") (auto simp: undo_def Let_def)
  with Suc.IH [of "snd (undo h)"] show ?case
    by (simp add: split_def Let_def)
qed

lemma final_redo_beyond_capacity:
  assumes "\<forall>vd\<in>set vds. debounceMs opts \<le> snd vd"
    and "distinct_adj (v0 # map fst vds)"
    and "maxHistory opts < length vds - 1"
  shows "last (fst (redo_times (length vds - 1)
           (snd (undo_times (length vds - 1) (record_all opts vds (useHistory v0)))))) = None"
proof -
  let ?h = "record_all opts vds (useHistory v0)"
  let ?n = "length vds - 1"
  from assms(3) have ne: "vds \<noteq> []" by auto
  have "length (undoStack ?h) = min (maxHistory opts) (length vds)"
    using record_all_committed [of vds opts "useHistory v0"] assms(1,2)
    by (simp add: useHistory_def)
  moreover have "redoStack ?h = []"
    using redoStack_record_all [OF ne assms(1), of "useHistory v0"] assms(2)
    by (simp add: useHistory_def)
  ultimately have "length (redoStack (snd (undo_times ?n ?h))) < ?n"
    using redoStack_undo_times [of ?n ?h] assms(3) by simp
  then show ?thesis
    by (rule redo_times_exhausted)
qed

lemma undo_nothing: "undoStack h = [] \<Longrightarrow> undo h = (None, h)"
  by (simp add: undo_def)

lemma redo_nothing: "redoStack h = [] \<Longrightarrow> redo h = (None, h)"
  by (simp add: redo_def)

lemma redo_length:
  "redoStack h \<noteq> [] \<Longrightarrow> length (redoStack (snd (redo h))) = length (redoStack h) - 1"
  by (simp add: redo_def Let_def)

lemma undo_times_beyond:
  "length (undoStack h) \<le> n \<Longrightarrow>
   snd (undo_times n h) = snd (undo_times (length (undoStack h)) h)"
proof (induction n arbitrary: h)
  case 0
  then show ?case by simp
next
  case (Suc n)
  show ?case
  proof (cases "undoStack h = []")
    case True
    then have "snd (undo_times (Suc n) h) = snd (undo_times n h)"
      by (simp add: undo_nothing split_def Let_def)
    also have "\<dots> = snd (undo_times (length (undoStack h)) h)"
      using True by (intro Suc.IH) simp
    finally show ?thesis .
  next
    case False
    then obtain m where m: "length (undoStack h) = Suc m"
      by (cases "undoStack h") auto
    have len: "length (undoStack (snd (undo h))) = m"
      using False m by (simp add: undo_length)
    have "snd (undo_times (Suc n) h) = snd (undo_times n (snd (undo h)))"
      by (simp add: split_def Let_def)
    also have "\<dots> = snd (undo_times m (snd (undo h)))"
      using Suc.IH [of "snd (undo h)"] Suc.prems len m by simp
    also have "\<dots> = snd (undo_times (Suc m) h)"
      by (simp add: split_def Let_def)
    finally show ?thesis by (simp add: m)
  qed
qed

lemma redo_times_beyond:
  "length (redoStack h) \<le> n \<Longrightarrow>
   snd (redo_times n h) = snd (redo_times (length (redoStack h)) h)"
proof (induction n arbitrary: h)
  case 0
  then show ?case by simp
next
  case (Suc n)
  show ?case
  proof (cases "redoStack h = []")
    case True
    then have "snd (redo_times (Suc n) h) = snd (redo_times n h)"
      by (simp add: redo_nothing split_def Let_def)
    also have "\<dots> = snd (redo_times (length (redoStack h)) h)"
      using True by (intro Suc.IH) simp
    finally show ?thesis .
  next
    case False
    then obtain m where m: "length (redoStack h) = Suc m"
      by (cases "redoStack h") auto
    have len: "length (redoStack (snd (redo h))) = m"
      using False m by (simp add: redo_length)
    have "snd (redo_times (Suc n) h) = snd (redo_times n (snd (redo h)))"
      by (simp add: split_def Let_def)
    also have "\<dots> = snd (redo_times m (snd (redo h)))"
      using Suc.IH [of "snd (redo h)"] Suc.prems len m by simp
    also have "\<dots> = snd (redo_times (Suc m) h)"
      by (simp add: split_def Let_def)
    finally show ?thesis by (simp add: m)
  qed
qed

lemma redoStack_undo_times_exact:
  "n \<le> length (undoStack h) \<Longrightarrow>
   length (redoStack (snd (undo_times n h))) = length (redoStack h) + n"
proof (induction n arbitrary: h)
  case 0
  show ?case by simp
next
  case (Suc n)
  then have ne: "undoStack h \<noteq> []" by auto
  have "length (redoStack (snd (undo h))) = Suc (length (redoStack h))"
    using ne by (simp add: undo_def Let_def)
  moreover have "n \<le> length (undoStack (snd (undo h)))"
    using Suc.prems ne by (simp add: undo_length)
  ultimately show ?case
    using Suc.IH [of "snd (undo h)"] by (simp add: split_def Let_def)
qed

text \<open>
  However many times \<open>undo()\<close> is called on a settled history without redo entries,
  as many calls of \<open>redo()\<close> bring the history back: the calls beyond the depth of
  the stack do nothing.
\<close>

lemma redo_times_undo_times_any:
  assumes "redoStack h = []" and "currentValue h = lastPushedValue h"
  shows "snd (redo_times n (snd (undo_times n h))) = h"
proof (cases "n \<le> length (undoStack h)")
  case True
  then show ?thesis using redo_times_undo_times [of n h] assms(2) by simp
next
  case False
  let ?m = "length (undoStack h)"
  let ?g = "snd (undo_times ?m h)"
  from False have le: "?m \<le> n" by simp
  have g: "snd (undo_times n h) = ?g"
    by (rule undo_times_beyond [OF le])
  have "length (redoStack ?g) = ?m"
    using redoStack_undo_times_exact [of ?m h] assms(1) by simp
  then have "snd (redo_times n ?g) = snd (redo_times ?m ?g)"
    using redo_times_beyond [of ?g n] le by simp
  also have "\<dots> = h"
    using redo_times_undo_times [of ?m h] assms(2) by simp
  finally show ?thesis by (simp add: g)
qed

text \<open>
  Claim C3 (undo/redo inverse law), as amended. Start from the committed value
  \<open>v0\<close> and commit \<open>k \<ge> 1\<close> recordings, each of a value different from the one
  committed before it. Then, for every \<open>k\<close>, \<open>k - 1\<close> calls of \<open>undo()\<close>
  followed by \<open>k - 1\<close> calls of \<open>redo()\<close> restore the history as it was after the
  recordings, with the last recorded value committed. The final \<open>redo()\<close> returns
  that value when the calls stay within the capacity, \<open>2 \<le> k\<close> and
  \<open>k - 1 \<le> maxHistory\<close>; beyond the capacity it returns \<open>null\<close>.
\<close>

theorem undo_redo_inverse:
  assumes "vds \<noteq> []"
    and "\<forall>vd\<in>set vds. debounceMs opts \<le> snd vd"
    and "distinct_adj (v0 # map fst vds)"
  shows "let h = record_all opts vds (useHistory v0);
             (us, h1) = undo_times (length vds - 1) h;
             (rs, h2) = redo_times (length vds - 1) h1
         in h2 = h \<and>
            lastPushedValue h2 = fst (last vds) \<and> currentValue h2 = fst (last vds) \<and>
            (2 \<le> length vds \<and> length vds - 1 \<le> maxHistory opts \<longrightarrow>
               last rs = Some (fst (last vds))) \<and>
            (maxHistory opts < length vds - 1 \<longrightarrow> last rs = None)"
proof -
  let ?h = "record_all opts vds (useHistory v0)"
  let ?n = "length vds - 1"
  have facts: "length (undoStack ?h) = min (maxHistory opts) (length vds) \<and>
               lastPushedValue ?h = last (v0 # map fst vds) \<and>
               currentValue ?h = last (v0 # map fst vds)"
    using record_all_committed [of vds opts "useHistory v0"] assms(2,3)
    by (simp add: useHistory_def)
  have lp: "lastPushedValue ?h = fst (last vds)" and cv: "currentValue ?h = fst (last vds)"
    using facts assms(1) by (simp_all add: last_map)
  have no_redo: "redoStack ?h = []"
    using redoStack_record_all [OF assms(1,2), of "useHistory v0"] assms(3)
    by (simp add: useHistory_def)
  have restored: "snd (redo_times ?n (snd (undo_times ?n ?h))) = ?h"
    by (rule redo_times_undo_times_any [OF no_redo]) (simp add: lp cv)
  have within: "last (fst (redo_times ?n (snd (undo_times ?n ?h)))) = Some (fst (last vds))"
    if "2 \<le> length vds" and "?n \<le> maxHistory opts"
  proof -
    from that facts have "?n \<le> length (undoStack ?h)" and "0 < ?n" by simp_all
    with redo_times_undo_times [of ?n ?h] lp cv show ?thesis by simp
  qed
  have beyond: "last (fst (redo_times ?n (snd (undo_times ?n ?h)))) = None"
    if "maxHistory opts < ?n"
    using final_redo_beyond_capacity [OF assms(2,3) that] .
  show ?thesis
    using restored lp cv within beyond by (simp add: split_def Let_def)
qed

theorem undo_redo_inverse_witness:
  "[(''b'', 500), (''c'', 600), (''d'', 500)] \<noteq> [] \<and>
   debounceMs defaultOptions \<le> snd (''b'', 500::nat) \<and>
   debounceMs defaultOptions \<le> snd (''c'', 600::nat) \<and>
   debounceMs defaultOptions \<le> snd (''d'', 500::nat) \<and>
   distinct_adj (''a'' # map fst [(''b'', 500), (''c'', 600), (''d'', 500::nat)]) \<and>
   length [(''b'', 500), (''c'', 600), (''d'', 500::nat)] - 1 \<le> maxHistory defaultOptions \<and>
   (let h = record_all defaultOptions [(''b'', 500), (''c'', 600), (''d'', 500)] (useHistory ''a'');
        (us, h1) = undo_times 2 h;
        (rs, h2) = redo_times 2 h1
    in h2 = h \<and> lastPushedValue h2 = ''d'' \<and> currentValue h2 = ''d'' \<and> last rs = Some ''d'')"
  using undo_redo_inverse [of "[(''b'', 500), (''c'', 600), (''d'', 500)]" defaultOptions "''a''"]
  by (simp add: defaultOptions_def split_def Let_def numeral_2_eq_2 useHistory_def
      record_commit_def pushToHistory_def elapse_def timerCallback_def undo_def redo_def)

text \<open>
  The claim as it is written, for any number of recordings, fails beyond the capacity:
  with the default options (\<open>maxHistory = 50\<close>) and 52 committed recordings of
  different values, only 50 of the 51 calls of \<open>undo()\<close> find an entry, so the redo
  stack holds 50 entries and the 51st call of \<open>redo()\<close> returns \<open>null\<close>.
\<close>

lemma fifty_two_values_distinct: "distinct_adj ('''' # map fst fifty_two_values)"
  by code_simp

lemma fifty_two_values_length: "length fifty_two_values = 52"
  by (simp add: fifty_two_values_def)

lemma fifty_two_values_committed:
  "\<forall>vd\<in>set fifty_two_values. debounceMs defaultOptions \<le> snd vd"
  by (auto simp: fifty_two_values_def defaultOptions_def)

theorem undo_redo_inverse_counterexample:
  "last (fst (redo_times 51
     (snd (undo_times 51 (record_all defaultOptions fifty_two_values (useHistory '''')))))) = None \<and>
   last (fst (redo_times 51
     (snd (undo_times 51 (record_all defaultOptions fifty_two_values (useHistory ''''))))))
     \<noteq> Some (fst (last fifty_two_values))"
  using final_redo_beyond_capacity [OF fifty_two_values_committed fifty_two_values_distinct]
    fifty_two_values_length
  by (simp add: defaultOptions_def del: undo_times.simps redo_times.simps)

subsection \<open>Debounce\<close>

lemma burst_coalesces:
  "\<forall>c\<in>set calls. fst c < debounceMs opts \<Longrightarrow>
   burst opts calls (pushToHistory opts v1 h) =
     pushToHistory opts (last (v1 # map snd calls)) h"
proof (induction calls arbitrary: v1)
  case Nil
  show ?case by simp
next
  case (Cons c calls)
  then have gap: "fst c < debounceMs opts" by simp
  have "pushToHistory opts (snd c) (elapse opts (fst c) (pushToHistory opts v1 h)) =
          pushToHistory opts (snd c) h"
    using gap by (simp add: elapse_def pushToHistory_def)
  then show ?case using Cons by simp
qed

text \<open>
  Claim C5 (debounce coalescing). A burst is a first call of \<open>pushToHistory\<close> and any
  number of further calls, each less than the debounce delay after the one before it.
  During the burst, whatever its length, nothing is pushed: both stacks and the
  committed value stay as they were. When the timeout of the last call fires, there is
  no push if the last value of the burst is the committed value; otherwise exactly the
  value committed before the burst is appended to the undo stack (the oldest entry is
  dropped if the stack was full), the redo stack is cleared and the last value of the
  burst becomes the committed value. No intermediate value of the burst reaches a stack.
\<close>

theorem debounce_coalescing:
  assumes "\<forall>c\<in>set calls. fst c < debounceMs opts" and "debounceMs opts \<le> dt"
  shows "(\<forall>n\<le>length calls.
            undoStack (burst opts (take n calls) (pushToHistory opts v1 h)) = undoStack h \<and>
            redoStack (burst opts (take n calls) (pushToHistory opts v1 h)) = redoStack h \<and>
            lastPushedValue (burst opts (take n calls) (pushToHistory opts v1 h))
              = lastPushedValue h) \<and>
         (let vN = last (v1 # map snd calls);
              hf = elapse opts dt (burst opts calls (pushToHistory opts v1 h))
          in debounceTimer hf = None \<and> currentValue hf = vN \<and>
             (if vN = lastPushedValue h
              then undoStack hf = undoStack h \<and> redoStack hf = redoStack h \<and>
                   lastPushedValue hf = lastPushedValue h
              else undoStack hf =
                     (if length (undoStack h) < maxHistory opts
                      then undoStack h @ [lastPushedValue h]
                      else tl (undoStack h @ [lastPushedValue h])) \<and>
                   redoStack hf = [] \<and> lastPushedValue hf = vN))"
proof -
  have during: "undoStack (burst opts (take n calls) (pushToHistory opts v1 h)) = undoStack h \<and>
        redoStack (burst opts (take n calls) (pushToHistory opts v1 h)) = redoStack h \<and>
        lastPushedValue (burst opts (take n calls) (pushToHistory opts v1 h))
          = lastPushedValue h" for n
  proof -
    have "\<forall>c\<in>set (take n calls). fst c < debounceMs opts"
      using assms(1) by (meson in_set_takeD)
    then show ?thesis
      by (simp add: burst_coalesces) (simp add: pushToHistory_def)
  qed
  let ?vN = "last (v1 # map snd calls)"
  have fired: "elapse opts dt (burst opts calls (pushToHistory opts v1 h)) =
          timerCallback opts ?vN (h\<lparr>currentValue := ?vN, debounceTimer := None\<rparr>)"
    unfolding burst_coalesces [OF assms(1)]
    using assms(2) by (simp add: elapse_def pushToHistory_def)
  show ?thesis
    unfolding Let_def fired using during
    by (auto simp: timerCallback_def Let_def)
qed

theorem debounce_coalescing_witness:
  "fst (100::nat, ''ab'') < debounceMs defaultOptions \<and>
   fst (499::nat, ''abc'') < debounceMs defaultOptions \<and>
   debounceMs defaultOptions \<le> 500 \<and>
   undoStack (burst defaultOptions (take 1 [(100, ''ab''), (499, ''abc'')])
     (pushToHistory defaultOptions ''a'' (useHistory ''''))) = [] \<and>
   undoStack (elapse defaultOptions 500 (burst defaultOptions [(100, ''ab''), (499, ''abc'')]
     (pushToHistory defaultOptions ''a'' (useHistory '''')))) = [''''] \<and>
   lastPushedValue (elapse defaultOptions 500 (burst defaultOptions [(100, ''ab''), (499, ''abc'')]
     (pushToHistory defaultOptions ''a'' (useHistory '''')))) = ''abc''"
  using debounce_coalescing [of "[(100, ''ab''), (499, ''abc'')]" defaultOptions 500 "''a''"
      "useHistory ''''"]
  by (simp add: defaultOptions_def useHistory_def pushToHistory_def elapse_def
      timerCallback_def Let_def)

subsection \<open>The redo stack after a new edit\<close>

text \<open>
  Claim C6 (redo cleared on new edit), as amended: the redo stack is empty right after
  every committed recording of a value that differs from the committed value; in
  particular, after \<open>undo()\<close> and the committed recording of such a value,
  \<open>redo()\<close> returns \<open>null\<close>.
\<close>

theorem redo_cleared_on_new_edit:
  assumes "debounceMs opts \<le> dt"
  shows "(v \<noteq> lastPushedValue h \<longrightarrow> redoStack (record_commit opts (v, dt) h) = []) \<and>
         (v \<noteq> lastPushedValue (snd (undo h)) \<longrightarrow>
            fst (redo (record_commit opts (v, dt) (snd (undo h)))) = None)"
  using assms by (simp add: record_commit_distinct(2) redo_def)

theorem redo_cleared_on_new_edit_witness:
  "debounceMs defaultOptions \<le> 500 \<and>
   ''c'' \<noteq> lastPushedValue (record_commit defaultOptions (''b'', 500) (useHistory ''a'')) \<and>
   ''c'' \<noteq> lastPushedValue
      (snd (undo (record_commit defaultOptions (''b'', 500) (useHistory ''a'')))) \<and>
   redoStack (snd (undo (record_commit defaultOptions (''b'', 500) (useHistory ''a''))))
      = [''b''] \<and>
   redoStack (record_commit defaultOptions (''c'', 500)
      (snd (undo (record_commit defaultOptions (''b'', 500) (useHistory ''a''))))) = [] \<and>
   fst (redo (record_commit defaultOptions (''c'', 500)
      (snd (undo (record_commit defaultOptions (''b'', 500) (useHistory ''a'')))))) = None"
  using redo_cleared_on_new_edit [of defaultOptions 500 "''c''"
      "snd (undo (record_commit defaultOptions (''b'', 500) (useHistory ''a'')))"]
    redo_cleared_on_new_edit [of defaultOptions 500 "''c''"
      "record_commit defaultOptions (''b'', 500) (useHistory ''a'')"]
  by (simp add: defaultOptions_def useHistory_def record_commit_def pushToHistory_def
      elapse_def timerCallback_def undo_def redo_def Let_def)

text \<open>
  Without the condition on the value the claim fails: after \<open>undo()\<close> has brought
  \<open>a\<close> back, a recording of \<open>a\<close> itself fires its timeout, returns at the guard
  \<open>value === lastPushedValue.current\<close>, and the redo stack still holds \<open>b\<close>.
\<close>

theorem redo_cleared_on_new_edit_counterexample:
  "redoStack (record_commit defaultOptions (''a'', 500)
      (snd (undo (record_commit defaultOptions (''b'', 500) (useHistory ''a''))))) = [''b''] \<and>
   fst (redo (record_commit defaultOptions (''a'', 500)
      (snd (undo (record_commit defaultOptions (''b'', 500) (useHistory ''a'')))))) = Some ''b''"
  by (simp add: defaultOptions_def useHistory_def record_commit_def pushToHistory_def
      elapse_def timerCallback_def undo_def redo_def Let_def)

section \<open>Verification: drag-reorder engine\<close>

lemma calculateDropPosition_loop_eq:
  "calculateDropPosition_loop g y d blocks acc =
     (case find (\<lambda>b. y < midY (g b)) (filter (\<lambda>b. b \<noteq> d) blocks) of
        Some b \<Rightarrow> (Some b, Some Before, Some (top_px (g b)))
      | None \<Rightarrow>
          if filter (\<lambda>b. b \<noteq> d) blocks = [] then acc
          else (Some (last (filter (\<lambda>b. b \<noteq> d) blocks)), Some After,
                Some (bottom_px (g (last (filter (\<lambda>b. b \<noteq> d) blocks))))))"
proof (induction blocks arbitrary: acc)
  case Nil
  show ?case by simp
next
  case (Cons block blocks)
  show ?case
  proof (cases "block = d")
    case True
    then show ?thesis by (auto simp: Cons.IH split: option.splits)
  next
    case False
    show ?thesis
    proof (cases "y < midY (g block)")
      case True
      with False show ?thesis by simp
    next
      case below: False
      with False show ?thesis
        by (auto simp: Cons.IH split: option.splits)
    qed
  qed
qed

text \<open>
  Claim C7 (drop-target resolution). The candidates are the blocks other than the
  dragged element, in document order. The result is the first candidate whose vertical
  midpoint, its top plus half its height, is strictly below the pointer, with position \<open>before\<close> and the indicator at its
  top; if there is none, the last candidate, with position \<open>after\<close> and the
  indicator at its bottom; and three \<open>null\<close>s when there is no candidate.
\<close>

theorem drop_target_resolution:
  "calculateDropPosition getBoundingClientRect y blocks dragged =
     (case find (\<lambda>b. y < top_px (getBoundingClientRect b) + height_px (getBoundingClientRect b) / 2)
             (filter (\<lambda>b. b \<noteq> dragged) blocks) of
        Some b \<Rightarrow> (Some b, Some Before, Some (top_px (getBoundingClientRect b)))
      | None \<Rightarrow>
          if filter (\<lambda>b. b \<noteq> dragged) blocks = [] then (None, None, None)
          else (Some (last (filter (\<lambda>b. b \<noteq> dragged) blocks)), Some After,
                Some (bottom_px (getBoundingClientRect
                  (last (filter (\<lambda>b. b \<noteq> dragged) blocks))))))"
  by (simp add: calculateDropPosition_def calculateDropPosition_loop_eq midY_def)

lemma drop_target_examples:
  "calculateDropPosition (layout examplePage) 120 [1, 2, 3] 2 = (Some 1, Some Before, Some 100)"
  "calculateDropPosition (layout examplePage) 125 [1, 2, 3] 2 = (Some 3, Some Before, Some 300)"
  "calculateDropPosition (layout examplePage) 325 [1, 2, 3] 2 = (Some 3, Some After, Some 350)"
  "calculateDropPosition (layout examplePage) 120 [2] 2 = (None, None, None)"
  by (simp_all add: calculateDropPosition_def midY_def examplePage_def)

subsection \<open>The end of a drag\<close>

text \<open>
  What \<open>handleDragEnd\<close> does in a dragging state whenever it returns: the drag state
  is the idle one, the ghost is gone and the dragged block has lost the class
  \<open>dragging\<close>. Without a target or a position it returns, and neither the subtree of
  the editable root nor the count of change notifications has changed.
\<close>

lemma drag_end_returned:
  assumes "isDragging (dragState s)" and "handleDragEnd s = Returned s'"
  shows "dragState s' = idleDragState \<and> dragGhostRef s' = None \<and>
         (\<forall>ghost. dragGhostRef s = Some ghost \<longrightarrow> ghost \<notin> set (bodyChildren s')) \<and>
         (\<forall>d. draggedElement (dragState s) = Some d \<longrightarrow> ''dragging'' \<notin> classList s' d)"
  using assms
  by (auto simp: handleDragEnd_def removeDragGhost_def Let_def
      split: option.splits sum.splits)

lemma drag_end_without_target:
  assumes "isDragging (dragState s)"
    and "dropTarget (dragState s) = None \<or> dropPosition (dragState s) = None"
  shows "thrown (handleDragEnd s) = None \<and>
         dragState (stateAfter (handleDragEnd s)) = idleDragState \<and>
         editorRef (stateAfter (handleDragEnd s)) = editorRef s \<and>
         contentChanges (stateAfter (handleDragEnd s)) = contentChanges s"
  using assms
  by (auto simp: handleDragEnd_def removeDragGhost_def thrown_def stateAfter_def Let_def
      split: option.splits)

text \<open>When \<open>insertBefore\<close> throws, the drag state is the one from before the release.\<close>

lemma drag_end_thrown:
  assumes "handleDragEnd s = Thrown e s'"
  shows "dragState s' = dragState s \<and> isDragging (dragState s') \<and> dragGhostRef s' = None"
  using assms
  by (auto simp: handleDragEnd_def removeDragGhost_def Let_def
      split: option.splits sum.splits if_splits)

lemma drag_gesture_example:
  "getBlockElements examplePage = [1, 2, 3]"
  "dropTarget (dragState (handleDragMove 0 400 (handleDragStart 2 99 0 225 examplePage)))
     = Some 3"
  "dropPosition (dragState (handleDragMove 0 400 (handleDragStart 2 99 0 225 examplePage)))
     = Some After"
  "handleDragEnd (handleDragMove 0 400 (handleDragStart 2 99 0 225 examplePage)) =
     Returned (examplePage
       \<lparr>ghostPosition := Some (10, 410),
        editorRef := Some (Node 0 ''div'' [Node 1 ''p'' [], Node 3 ''p'' [], Node 2 ''p'' []]),
        contentChanges := 1\<rparr>)"
  by (simp_all add: handleDragEnd_def handleDragMove_def handleDragStart_def findBlockParent_def
      inclusiveDescendants_def updateGhostPosition_def removeDragGhost_def moveBlock_def
      insertBefore_def nextSibling_def parentElement_def findNode_def getBlockElements_def
      matchesBlockSelector_def DRAGGABLE_SELECTORS_def calculateDropPosition_def midY_def
      examplePage_def idleDragState_def Let_def fun_eq_iff)

text \<open>
  Claim C10 (drag-end cleanup) does not hold of the code for every gesture. On the page
  with a figure, \<open>getBlockElements\<close> lists the image inside the figure among the
  blocks. The figure is dragged and the pointer is moved above the middle of its image,
  so the image is the drop target, with position \<open>before\<close>. On release the figure
  is to be inserted into itself: \<open>insertBefore\<close> throws, \<open>setDragState\<close> is not
  reached, and the drag state is still the dragging one, with its target and position.
\<close>

theorem drag_end_throws_on_nested_target:
  "getBlockElements figurePage = [1, 2, 3] \<and>
   draggedElement (dragState (handleDragMove 0 200 (handleDragStart 2 99 0 250 figurePage)))
     = Some 2 \<and>
   dropTarget (dragState (handleDragMove 0 200 (handleDragStart 2 99 0 250 figurePage)))
     = Some 3 \<and>
   dropPosition (dragState (handleDragMove 0 200 (handleDragStart 2 99 0 250 figurePage)))
     = Some Before \<and>
   thrown (handleDragEnd (handleDragMove 0 200 (handleDragStart 2 99 0 250 figurePage)))
     = Some HierarchyRequestError \<and>
   isDragging (dragState (stateAfter
     (handleDragEnd (handleDragMove 0 200 (handleDragStart 2 99 0 250 figurePage))))) \<and>
   dragState (stateAfter
     (handleDragEnd (handleDragMove 0 200 (handleDragStart 2 99 0 250 figurePage))))
     \<noteq> idleDragState"
  by (simp add: handleDragEnd_def handleDragMove_def handleDragStart_def findBlockParent_def
      inclusiveDescendants_def updateGhostPosition_def removeDragGhost_def moveBlock_def
      insertBefore_def nextSibling_def parentElement_def findNode_def getBlockElements_def
      matchesBlockSelector_def DRAGGABLE_SELECTORS_def calculateDropPosition_def midY_def
      figurePage_def idleDragState_def thrown_def stateAfter_def Let_def)

section \<open>Verification: editor controller\<close>

text \<open>
  Claim C9 (empty-document predicate). The document counts as empty, and the editable
  root gets the class that shows the placeholder, exactly when the \<open>html\<close> prop is
  the empty string, \<open><br>\<close> or \<open><p><br></p>\<close>.
\<close>

theorem isEmpty_iff:
  "(isEmpty html \<longleftrightarrow> html \<in> {'''', ''<br>'', ''<p><br></p>''}) \<and>
   (editorClassName html = ''wysiwyg-editor wysiwyg-editor--empty''
      \<longleftrightarrow> html \<in> {'''', ''<br>'', ''<p><br></p>''})"
  by (auto simp: isEmpty_def editorClassName_def)

section \<open>Verification: font-size fallback\<close>

lemma SIZES_steps: "map (\<lambda>s. parseInt (fst s)) SIZES = map Some fontSizeSteps"
  by (simp add: SIZES_def fontSizeSteps_def parseInt_def isWhiteSpace_def digitValue_def)

lemma fontSizeLevel_range: "1 \<le> fontSizeLevel sizeNum \<and> fontSizeLevel sizeNum \<le> 7"
  by (simp add: fontSizeLevel_def split: option.splits)

lemma fontSizeLevel_of_step:
  "i < length fontSizeSteps \<Longrightarrow> fontSizeLevel (Some (fontSizeSteps ! i)) = Suc i"
proof -
  assume "i < length fontSizeSteps"
  then have "i \<in> {0, 1, 2, 3, 4, 5, 6}"
    by (auto simp: fontSizeSteps_def)
  then show ?thesis
    by (auto simp: fontSizeLevel_def fontSizeSteps_def)
qed

text \<open>
  The part of the fallback that works: when the selection is not collapsed and
  \<open>surroundContents\<close> throws, \<open>setFontSize\<close> returns normally; the exception is
  caught, the native font-size command is executed with a level from 1 to 7, and
  \<open>onContentChange\<close> is called. A size of the scale 12, 14, 16, 18, 24, 32, 48 gets
  the level of its own step.
\<close>

lemma font_size_fallback_caught:
  assumes "selection env = Some (rangeCount, False)" and "0 < rangeCount"
    and "surroundContents env = Some e"
  shows "setFontSize env fontSize =
           Inr ((if editorPresent env \<and> \<not> editorFocused env then [Focus] else []) @
                [ExecCommandFontSize (fontSizeLevel (parseInt fontSize)), OnContentChange])"
    and "1 \<le> fontSizeLevel (parseInt fontSize) \<and> fontSizeLevel (parseInt fontSize) \<le> 7"
    and "\<forall>i<length fontSizeSteps. parseInt fontSize = Some (fontSizeSteps ! i) \<longrightarrow>
            fontSizeLevel (parseInt fontSize) = Suc i"
proof -
  show "setFontSize env fontSize =
           Inr ((if editorPresent env \<and> \<not> editorFocused env then [Focus] else []) @
                [ExecCommandFontSize (fontSizeLevel (parseInt fontSize)), OnContentChange])"
    using assms by (simp add: setFontSize_def try_catch_def)
  show "1 \<le> fontSizeLevel (parseInt fontSize) \<and> fontSizeLevel (parseInt fontSize) \<le> 7"
    by (rule fontSizeLevel_range)
  show "\<forall>i<length fontSizeSteps. parseInt fontSize = Some (fontSizeSteps ! i) \<longrightarrow>
            fontSizeLevel (parseInt fontSize) = Suc i"
    by (simp add: fontSizeLevel_of_step)
qed

text \<open>
  Claim C8 (font-size fallback) does not hold of the code for every requested size. The
  comment of the \<open>catch\<close> block announces the closest size, as the claim does, but
  the chain of comparisons takes the next step upwards: with a selection that cannot be
  wrapped, \<open>setFontSize('20px')\<close> executes the command with level 5, whose step is
  24, while the nearest step of the scale is 18, which is level 4.
\<close>

theorem font_size_fallback_not_nearest:
  "parseInt ''20px'' = Some 20 \<and>
   setFontSize partialSelection ''20px'' = Inr [ExecCommandFontSize 5, OnContentChange] \<and>
   spec_nearest_level 20 = 4 \<and>
   fontSizeSteps ! 3 = 18 \<and> fontSizeSteps ! 4 = 24 \<and>
   \<bar>20 - fontSizeSteps ! 3\<bar> < \<bar>20 - fontSizeSteps ! 4\<bar>"
  by (simp add: setFontSize_def try_catch_def partialSelection_def parseInt_def
      isWhiteSpace_def digitValue_def fontSizeLevel_def spec_nearest_level_def
      fontSizeSteps_def upt_rec)

text \<open>
  A size that is not a number reaches the last branch of the chain, level 7; the
  initial value 3 of the variable is never used.
\<close>

lemma font_size_fallback_not_a_number:
  "parseInt ''large'' = None \<and>
   setFontSize partialSelection ''large'' = Inr [ExecCommandFontSize 7, OnContentChange]"
  by (simp add: setFontSize_def try_catch_def partialSelection_def parseInt_def
      isWhiteSpace_def digitValue_def fontSizeLevel_def)

section \<open>Verification: sanitizer\<close>

subsection \<open>The cosmetic passes\<close>

text \<open>The letters of the two patterns, in either case.\<close>

lemma toLowerCase_code:
  "(of_char (toLowerCase c) :: nat) =
     (if 65 \<le> (of_char c :: nat) \<and> (of_char c :: nat) \<le> 90 then of_char c + 32 else of_char c)"
  by (simp add: toLowerCase_def Let_def)

lemma char_eq_code: "c = d \<longleftrightarrow> (of_char c :: nat) = of_char d"
  by (simp add: of_char_eq_iff)

lemma toLowerCase_eq:
  "toLowerCase c = CHR ''<'' \<longleftrightarrow> c = CHR ''<''"
  "toLowerCase c = CHR ''>'' \<longleftrightarrow> c = CHR ''>''"
  "toLowerCase c = CHR ''/'' \<longleftrightarrow> c = CHR ''/''"
  "toLowerCase c = CHR ''p'' \<longleftrightarrow> c = CHR ''p'' \<or> c = CHR ''P''"
  "toLowerCase c = CHR ''b'' \<longleftrightarrow> c = CHR ''b'' \<or> c = CHR ''B''"
  "toLowerCase c = CHR ''r'' \<longleftrightarrow> c = CHR ''r'' \<or> c = CHR ''R''"
  by (auto simp: char_eq_code toLowerCase_code)

lemma not_isWhiteSpace [simp]:
  "\<not> isWhiteSpace CHR ''<''" "\<not> isWhiteSpace CHR ''>''" "\<not> isWhiteSpace CHR ''/''"
  "\<not> isWhiteSpace CHR ''p''" "\<not> isWhiteSpace CHR ''P''"
  by (simp_all add: isWhiteSpace_def)

lemma lower_p3: "map toLowerCase u = ''<p>'' \<longleftrightarrow> u \<in> {''<p>'', ''<P>''}"
  by (auto simp: map_eq_Cons_conv toLowerCase_eq)

lemma lower_p4: "map toLowerCase u = ''</p>'' \<longleftrightarrow> u \<in> {''</p>'', ''</P>''}"
  by (auto simp: map_eq_Cons_conv toLowerCase_eq)

lemma lower_br: "map toLowerCase u = ''<br'' \<longleftrightarrow> u \<in> {''<br'', ''<bR'', ''<Br'', ''<BR''}"
  by (auto simp: map_eq_Cons_conv toLowerCase_eq)

text \<open>
  A match of the first pattern at the start of a string is an empty paragraph that is a
  prefix of it.
\<close>

lemma takeWhile_ws_append:
  assumes "\<forall>c\<in>set w. isWhiteSpace c" and "b = [] \<or> \<not> isWhiteSpace (hd b)"
  shows "takeWhile isWhiteSpace (w @ b) = w" and "dropWhile isWhiteSpace (w @ b) = b"
proof -
  have "takeWhile isWhiteSpace b = []" "dropWhile isWhiteSpace b = b"
    using assms(2) by (cases b; simp)+
  then show "takeWhile isWhiteSpace (w @ b) = w" "dropWhile isWhiteSpace (w @ b) = b"
    using assms(1) by (simp_all add: takeWhile_append2 dropWhile_append2)
qed

lemma emptyParagraphAt_iff:
  "emptyParagraphAt s = Some n \<longleftrightarrow>
     (\<exists>a w b r. s = a @ w @ b @ r \<and> a \<in> {''<p>'', ''<P>''} \<and> (\<forall>c\<in>set w. isWhiteSpace c) \<and>
        b \<in> {''</p>'', ''</P>''} \<and> n = 7 + length w)"
proof
  assume m: "emptyParagraphAt s = Some n"
  let ?d = "drop 3 s"
  let ?w = "takeWhile isWhiteSpace ?d"
  let ?r = "dropWhile isWhiteSpace ?d"
  from m have c: "map toLowerCase (take 3 s) = ''<p>'' \<and> map toLowerCase (take 4 ?r) = ''</p>'' \<and>
      n = 7 + length ?w"
    by (simp add: emptyParagraphAt_def split: if_splits)
  from c have a: "take 3 s \<in> {''<p>'', ''<P>''}" unfolding lower_p3 by (rule conjunct1)
  from c have b: "take 4 ?r \<in> {''</p>'', ''</P>''}" unfolding lower_p4 by simp
  from c have n: "n = 7 + length ?w" by simp
  have "s = take 3 s @ ?d" by simp
  also have "?d = ?w @ ?r" by simp
  also have "?r = take 4 ?r @ drop 4 ?r" by simp
  finally have s: "s = take 3 s @ ?w @ take 4 ?r @ drop 4 ?r" .
  have w: "\<forall>c\<in>set ?w. isWhiteSpace c" by (auto dest: set_takeWhileD)
  show "\<exists>a w b r. s = a @ w @ b @ r \<and> a \<in> {''<p>'', ''<P>''} \<and>
      (\<forall>c\<in>set w. isWhiteSpace c) \<and> b \<in> {''</p>'', ''</P>''} \<and> n = 7 + length w"
  proof (intro exI conjI)
    show "s = take 3 s @ ?w @ take 4 ?r @ drop 4 ?r" by (fact s)
    show "take 3 s \<in> {''<p>'', ''<P>''}" by (fact a)
    show "\<forall>c\<in>set ?w. isWhiteSpace c" by (fact w)
    show "take 4 ?r \<in> {''</p>'', ''</P>''}" by (fact b)
    show "n = 7 + length ?w" by (fact n)
  qed
next
  assume "\<exists>a w b r. s = a @ w @ b @ r \<and> a \<in> {''<p>'', ''<P>''} \<and>
      (\<forall>c\<in>set w. isWhiteSpace c) \<and> b \<in> {''</p>'', ''</P>''} \<and> n = 7 + length w"
  then obtain a w b r where s: "s = a @ w @ b @ r" and a: "a \<in> {''<p>'', ''<P>''}"
    and w: "\<forall>c\<in>set w. isWhiteSpace c" and b: "b \<in> {''</p>'', ''</P>''}" and n: "n = 7 + length w"
    by blast
  from a have la: "length a = 3" by auto
  from b have lb: "length b = 4" and hb: "(b @ r) = [] \<or> \<not> isWhiteSpace (hd (b @ r))" by auto
  have t3: "take 3 s = a" and d3: "drop 3 s = w @ b @ r" using s la by simp_all
  have tw: "takeWhile isWhiteSpace (drop 3 s) = w" and dw: "dropWhile isWhiteSpace (drop 3 s) = b @ r"
    unfolding d3 using takeWhile_ws_append [OF w hb] by simp_all
  have "take 4 (b @ r) = b" using lb by simp
  then show "emptyParagraphAt s = Some n"
    using a b n by (simp add: emptyParagraphAt_def t3 tw dw lower_p3 lower_p4)
qed

lemma isEmptyParagraph_iff:
  "isEmptyParagraph m \<longleftrightarrow>
     (\<exists>a w b. m = a @ w @ b \<and> a \<in> {''<p>'', ''<P>''} \<and> (\<forall>c\<in>set w. isWhiteSpace c) \<and>
        b \<in> {''</p>'', ''</P>''})"
proof
  assume m: "isEmptyParagraph m"
  let ?d = "drop 3 m"
  let ?w = "takeWhile isWhiteSpace ?d"
  let ?r = "dropWhile isWhiteSpace ?d"
  from m have a: "take 3 m \<in> {''<p>'', ''<P>''}" and b: "?r \<in> {''</p>'', ''</P>''}"
    by (simp_all add: isEmptyParagraph_def)
  have "m = take 3 m @ ?d" by simp
  also have "?d = ?w @ ?r" by simp
  finally have s: "m = take 3 m @ ?w @ ?r" .
  have w: "\<forall>c\<in>set ?w. isWhiteSpace c" by (auto dest: set_takeWhileD)
  show "\<exists>a w b. m = a @ w @ b \<and> a \<in> {''<p>'', ''<P>''} \<and>
      (\<forall>c\<in>set w. isWhiteSpace c) \<and> b \<in> {''</p>'', ''</P>''}"
  proof (intro exI conjI)
    show "m = take 3 m @ ?w @ ?r" by (fact s)
    show "take 3 m \<in> {''<p>'', ''<P>''}" by (fact a)
    show "\<forall>c\<in>set ?w. isWhiteSpace c" by (fact w)
    show "?r \<in> {''</p>'', ''</P>''}" by (fact b)
  qed
next
  assume "\<exists>a w b. m = a @ w @ b \<and> a \<in> {''<p>'', ''<P>''} \<and>
      (\<forall>c\<in>set w. isWhiteSpace c) \<and> b \<in> {''</p>'', ''</P>''}"
  then obtain a w b where s: "m = a @ w @ b" and a: "a \<in> {''<p>'', ''<P>''}"
    and w: "\<forall>c\<in>set w. isWhiteSpace c" and b: "b \<in> {''</p>'', ''</P>''}"
    by blast
  from a have la: "length a = 3" by auto
  from b have hb: "b = [] \<or> \<not> isWhiteSpace (hd b)" by auto
  have t3: "take 3 m = a" and d3: "drop 3 m = w @ b" using s la by simp_all
  have dw: "dropWhile isWhiteSpace (drop 3 m) = b"
    unfolding d3 using takeWhile_ws_append [OF w hb] by simp
  show "isEmptyParagraph m"
    using a b by (simp add: isEmptyParagraph_def t3 dw)
qed

lemma emptyParagraphAt_length: "emptyParagraphAt s = Some n \<Longrightarrow> 7 \<le> n \<and> n \<le> length s"
  by (auto simp: emptyParagraphAt_iff)

lemma emptyParagraphAt_isEmptyParagraph:
  "emptyParagraphAt s = Some n \<longleftrightarrow> n \<le> length s \<and> isEmptyParagraph (take n s)"
proof
  assume "emptyParagraphAt s = Some n"
  then obtain a w b r where s: "s = a @ w @ b @ r" and a: "a \<in> {''<p>'', ''<P>''}"
    and w: "\<forall>c\<in>set w. isWhiteSpace c" and b: "b \<in> {''</p>'', ''</P>''}" and n: "n = 7 + length w"
    unfolding emptyParagraphAt_iff by blast
  from a b n have "n = length (a @ w @ b)" by auto
  then have t: "take n s = a @ w @ b" and l: "n \<le> length s" using s by simp_all
  have "isEmptyParagraph (take n s)" unfolding isEmptyParagraph_iff
  proof (intro exI conjI)
    show "take n s = a @ w @ b" by (fact t)
  qed (fact a w b)+
  with l show "n \<le> length s \<and> isEmptyParagraph (take n s)" by simp
next
  assume h: "n \<le> length s \<and> isEmptyParagraph (take n s)"
  then obtain a w b where t: "take n s = a @ w @ b" and a: "a \<in> {''<p>'', ''<P>''}"
    and w: "\<forall>c\<in>set w. isWhiteSpace c" and b: "b \<in> {''</p>'', ''</P>''}"
    unfolding isEmptyParagraph_iff by blast
  from h have "length (take n s) = n" by simp
  then have "n = length (a @ w @ b)" using t by simp
  then have n: "n = 7 + length w" using a b by auto
  have "s = take n s @ drop n s" by simp
  then have s: "s = a @ w @ b @ drop n s" using t by simp
  show "emptyParagraphAt s = Some n" unfolding emptyParagraphAt_iff
  proof (intro exI conjI)
    show "s = a @ w @ b @ drop n s" by (fact s)
  qed (fact a w b n)+
qed

lemma list_ex_upt: "list_ex P [0..<Suc k] \<longleftrightarrow> (\<exists>i\<le>k. P i)"
  unfolding list_ex_iff by (auto simp del: upt_Suc simp: less_Suc_eq_le)

lemma list_all_upt: "list_all P [0..<Suc k] \<longleftrightarrow> (\<forall>i\<le>k. P i)"
  unfolding list_all_iff by (auto simp del: upt_Suc simp: less_Suc_eq_le)

lemma containsEmptyParagraph_ex:
  "containsEmptyParagraph s \<longleftrightarrow>
     (\<exists>i\<le>length s. \<exists>n\<le>length s - i. isEmptyParagraph (take n (drop i s)))"
  unfolding containsEmptyParagraph_def list_ex_upt ..

lemma containsEmptyParagraph_iff:
  "containsEmptyParagraph s \<longleftrightarrow> (\<exists>i<length s. emptyParagraphAt (drop i s) \<noteq> None)"
proof
  assume "containsEmptyParagraph s"
  then obtain i n where i: "i \<le> length s" and n: "n \<le> length s - i"
    and e: "isEmptyParagraph (take n (drop i s))"
    unfolding containsEmptyParagraph_ex by blast
  then have m: "emptyParagraphAt (drop i s) = Some n"
    by (simp add: emptyParagraphAt_isEmptyParagraph)
  from emptyParagraphAt_length [OF m] have "i < length s" by (simp, arith)
  with m show "\<exists>i<length s. emptyParagraphAt (drop i s) \<noteq> None" by auto
next
  assume "\<exists>i<length s. emptyParagraphAt (drop i s) \<noteq> None"
  then obtain i n where i: "i < length s" and m: "emptyParagraphAt (drop i s) = Some n" by auto
  then have "n \<le> length s - i" and "isEmptyParagraph (take n (drop i s))"
    by (simp_all add: emptyParagraphAt_isEmptyParagraph)
  with i have "i \<le> length s \<and> n \<le> length s - i \<and> isEmptyParagraph (take n (drop i s))"
    by simp
  then show "containsEmptyParagraph s"
    unfolding containsEmptyParagraph_ex by blast
qed

text \<open>
  A match of the second pattern at the start of a string is a line break that is
  followed by white space only.
\<close>

lemma trailingBreakAt_iff:
  "trailingBreakAt s \<longleftrightarrow>
     (\<exists>a w e t. s = a @ w @ e @ t \<and> a \<in> {''<br'', ''<bR'', ''<Br'', ''<BR''} \<and>
        (\<forall>c\<in>set w. isWhiteSpace c) \<and> e \<in> {''>'', ''/>''} \<and> (\<forall>c\<in>set t. isWhiteSpace c))"
proof
  assume m: "trailingBreakAt s"
  define w where "w = takeWhile isWhiteSpace (drop 3 s)"
  define r where "r = dropWhile isWhiteSpace (drop 3 s)"
  define r2 where "r2 = (if r \<noteq> [] \<and> hd r = CHR ''/'' then tl r else r)"
  from m have "map toLowerCase (take 3 s) = ''<br''" by (simp add: trailingBreakAt_def)
  then have a: "take 3 s \<in> {''<br'', ''<bR'', ''<Br'', ''<BR''}" unfolding lower_br .
  from m have R: "r2 \<noteq> [] \<and> hd r2 = CHR ''>'' \<and> dropWhile isWhiteSpace (tl r2) = []"
    unfolding trailingBreakAt_def Let_def r2_def r_def by (rule conjunct2)
  have w: "\<forall>c\<in>set w. isWhiteSpace c" unfolding w_def by (auto dest: set_takeWhileD)
  have s: "s = take 3 s @ w @ r" unfolding w_def r_def by simp
  from R have t: "\<forall>c\<in>set (tl r2). isWhiteSpace c" by simp
  from R have r2': "r2 = CHR ''>'' # tl r2" by (cases r2) simp_all
  define e where "e = (if r \<noteq> [] \<and> hd r = CHR ''/'' then ''/>'' else ''>'')"
  have e: "e \<in> {''>'', ''/>''}" by (simp add: e_def)
  have "r = e @ tl r2"
  proof (cases "r \<noteq> [] \<and> hd r = CHR ''/''")
    case True
    then have "r = CHR ''/'' # r2" unfolding r2_def by (cases r) simp_all
    with r2' have "r = CHR ''/'' # CHR ''>'' # tl r2" by simp
    then show ?thesis using True by (simp add: e_def)
  next
    case False
    then have "r = r2" unfolding r2_def by auto
    with r2' have "r = CHR ''>'' # tl r2" by simp
    then show ?thesis using False by (simp add: e_def)
  qed
  with s have s': "s = take 3 s @ w @ e @ tl r2" by simp
  show "\<exists>a w e t. s = a @ w @ e @ t \<and> a \<in> {''<br'', ''<bR'', ''<Br'', ''<BR''} \<and>
        (\<forall>c\<in>set w. isWhiteSpace c) \<and> e \<in> {''>'', ''/>''} \<and> (\<forall>c\<in>set t. isWhiteSpace c)"
  proof (intro exI conjI)
    show "s = take 3 s @ w @ e @ tl r2" by (fact s')
    show "take 3 s \<in> {''<br'', ''<bR'', ''<Br'', ''<BR''}" by (fact a)
    show "\<forall>c\<in>set w. isWhiteSpace c" by (fact w)
    show "e \<in> {''>'', ''/>''}" by (fact e)
    show "\<forall>c\<in>set (tl r2). isWhiteSpace c" by (fact t)
  qed
next
  assume "\<exists>a w e t. s = a @ w @ e @ t \<and> a \<in> {''<br'', ''<bR'', ''<Br'', ''<BR''} \<and>
        (\<forall>c\<in>set w. isWhiteSpace c) \<and> e \<in> {''>'', ''/>''} \<and> (\<forall>c\<in>set t. isWhiteSpace c)"
  then obtain a w e t where s: "s = a @ w @ e @ t" and a: "a \<in> {''<br'', ''<bR'', ''<Br'', ''<BR''}"
    and w: "\<forall>c\<in>set w. isWhiteSpace c" and e: "e \<in> {''>'', ''/>''}"
    and t: "\<forall>c\<in>set t. isWhiteSpace c"
    by blast
  from a have la: "length a = 3" by auto
  from e have he: "(e @ t) = [] \<or> \<not> isWhiteSpace (hd (e @ t))" by auto
  have t3: "take 3 s = a" and d3: "drop 3 s = w @ e @ t" using s la by simp_all
  have dw: "dropWhile isWhiteSpace (drop 3 s) = e @ t"
    unfolding d3 using takeWhile_ws_append [OF w he] by simp
  have t': "dropWhile isWhiteSpace t = []" using t by simp
  from a have a': "map toLowerCase a = ''<br''" unfolding lower_br .
  from e t' a' show "trailingBreakAt s"
    by (auto simp: trailingBreakAt_def t3 dw)
qed

lemma isLineBreak_iff:
  "isLineBreak u \<longleftrightarrow>
     (\<exists>a w e. u = a @ w @ e \<and> a \<in> {''<br'', ''<bR'', ''<Br'', ''<BR''} \<and>
        (\<forall>c\<in>set w. isWhiteSpace c) \<and> e \<in> {''>'', ''/>''})"
proof
  assume m: "isLineBreak u"
  let ?d = "drop 3 u"
  let ?w = "takeWhile isWhiteSpace ?d"
  let ?r = "dropWhile isWhiteSpace ?d"
  from m have a: "take 3 u \<in> {''<br'', ''<bR'', ''<Br'', ''<BR''}" and e: "?r \<in> {''>'', ''/>''}"
    by (simp_all add: isLineBreak_def)
  have s: "u = take 3 u @ ?w @ ?r" by simp
  have w: "\<forall>c\<in>set ?w. isWhiteSpace c" by (auto dest: set_takeWhileD)
  show "\<exists>a w e. u = a @ w @ e \<and> a \<in> {''<br'', ''<bR'', ''<Br'', ''<BR''} \<and>
        (\<forall>c\<in>set w. isWhiteSpace c) \<and> e \<in> {''>'', ''/>''}"
  proof (intro exI conjI)
    show "u = take 3 u @ ?w @ ?r" by (fact s)
    show "take 3 u \<in> {''<br'', ''<bR'', ''<Br'', ''<BR''}" by (fact a)
    show "\<forall>c\<in>set ?w. isWhiteSpace c" by (fact w)
    show "?r \<in> {''>'', ''/>''}" by (fact e)
  qed
next
  assume "\<exists>a w e. u = a @ w @ e \<and> a \<in> {''<br'', ''<bR'', ''<Br'', ''<BR''} \<and>
        (\<forall>c\<in>set w. isWhiteSpace c) \<and> e \<in> {''>'', ''/>''}"
  then obtain a w e where s: "u = a @ w @ e" and a: "a \<in> {''<br'', ''<bR'', ''<Br'', ''<BR''}"
    and w: "\<forall>c\<in>set w. isWhiteSpace c" and e: "e \<in> {''>'', ''/>''}"
    by blast
  from a have la: "length a = 3" by auto
  from e have he: "e = [] \<or> \<not> isWhiteSpace (hd e)" by auto
  have t3: "take 3 u = a" and d3: "drop 3 u = w @ e" using s la by simp_all
  have dw: "dropWhile isWhiteSpace (drop 3 u) = e"
    unfolding d3 using takeWhile_ws_append [OF w he] by simp
  show "isLineBreak u"
    using a e by (simp add: isLineBreak_def t3 dw)
qed

lemma isFinalLineBreak_ex:
  "isFinalLineBreak s \<longleftrightarrow>
     (\<exists>n\<le>length s. isLineBreak (take n s) \<and> (\<forall>c\<in>set (drop n s). isWhiteSpace c))"
  unfolding isFinalLineBreak_def list_ex_upt list_all_iff ..

lemma isFinalLineBreak_iff: "isFinalLineBreak s \<longleftrightarrow> trailingBreakAt s"
proof
  assume "isFinalLineBreak s"
  then obtain n where n: "n \<le> length s" and l: "isLineBreak (take n s)"
    and t: "\<forall>c\<in>set (drop n s). isWhiteSpace c"
    unfolding isFinalLineBreak_ex by blast
  from l obtain a w e where u: "take n s = a @ w @ e"
    and a: "a \<in> {''<br'', ''<bR'', ''<Br'', ''<BR''}"
    and w: "\<forall>c\<in>set w. isWhiteSpace c" and e: "e \<in> {''>'', ''/>''}"
    unfolding isLineBreak_iff by blast
  have "s = take n s @ drop n s" by simp
  then have s: "s = a @ w @ e @ drop n s" using u by simp
  show "trailingBreakAt s" unfolding trailingBreakAt_iff
  proof (intro exI conjI)
    show "s = a @ w @ e @ drop n s" by (fact s)
  qed (fact a w e t)+
next
  assume "trailingBreakAt s"
  then obtain a w e t where s: "s = a @ w @ e @ t"
    and a: "a \<in> {''<br'', ''<bR'', ''<Br'', ''<BR''}"
    and w: "\<forall>c\<in>set w. isWhiteSpace c" and e: "e \<in> {''>'', ''/>''}"
    and t: "\<forall>c\<in>set t. isWhiteSpace c"
    unfolding trailingBreakAt_iff by blast
  let ?n = "length (a @ w @ e)"
  have tk: "take ?n s = a @ w @ e" and dr: "drop ?n s = t" and le: "?n \<le> length s"
    using s by simp_all
  have "isLineBreak (take ?n s)" unfolding isLineBreak_iff
  proof (intro exI conjI)
    show "take ?n s = a @ w @ e" by (fact tk)
  qed (fact a w e)+
  moreover have "\<forall>c\<in>set (drop ?n s). isWhiteSpace c" unfolding dr by (fact t)
  ultimately show "isFinalLineBreak s"
    unfolding isFinalLineBreak_ex using le by blast
qed

lemma trailingBreakAt_Nil [simp]: "\<not> trailingBreakAt []"
  by (simp add: trailingBreakAt_def)

lemma endsWithBreak_iff:
  "endsWithBreak s \<longleftrightarrow> (\<exists>i<length s. trailingBreakAt (drop i s))"
proof
  assume "endsWithBreak s"
  then obtain i where i: "i \<le> length s" and t: "trailingBreakAt (drop i s)"
    unfolding endsWithBreak_def list_ex_upt isFinalLineBreak_iff by blast
  have "i \<noteq> length s" using t by auto
  with i have "i < length s" by simp
  with t show "\<exists>i<length s. trailingBreakAt (drop i s)" by blast
next
  assume "\<exists>i<length s. trailingBreakAt (drop i s)"
  then show "endsWithBreak s"
    unfolding endsWithBreak_def list_ex_upt isFinalLineBreak_iff by (meson less_imp_le)
qed

text \<open>
  The first replacement. Where the empty paragraphs of a string stand apart, the
  removal leaves none: a match in the result would begin in front of the leftmost match
  that is removed inside it, and so end with the beginning of an empty paragraph there.
\<close>

lemma emptyParagraphAt_Nil [simp]: "emptyParagraphAt [] = None"
  by (simp add: emptyParagraphAt_def)

lemma removeMatches_drop: "removeMatches k s = removeMatches 0 (drop k s)"
proof (induction s arbitrary: k)
  case Nil
  show ?case by simp
next
  case (Cons c cs)
  show ?case
  proof (cases k)
    case 0
    then show ?thesis by simp
  next
    case (Suc k')
    then show ?thesis using Cons.IH [of k'] by simp
  qed
qed

lemma removeEmptyParagraphs_Nil [simp]: "removeEmptyParagraphs [] = []"
  by (simp add: removeEmptyParagraphs_def)

lemma removeEmptyParagraphs_match:
  assumes "emptyParagraphAt s = Some n"
  shows "removeEmptyParagraphs s = removeEmptyParagraphs (drop n s)"
proof (cases s)
  case Nil
  with assms show ?thesis by simp
next
  case (Cons c cs)
  from emptyParagraphAt_length [OF assms] obtain n' where n: "n = Suc n'"
    by (cases n) simp_all
  have "removeEmptyParagraphs s = removeMatches n' cs"
    using assms by (simp add: removeEmptyParagraphs_def Cons n)
  also have "\<dots> = removeMatches 0 (drop n' cs)" by (rule removeMatches_drop)
  finally show ?thesis by (simp add: removeEmptyParagraphs_def Cons n)
qed

lemma removeEmptyParagraphs_no_match:
  assumes "emptyParagraphAt (c # cs) = None"
  shows "removeEmptyParagraphs (c # cs) = c # removeEmptyParagraphs cs"
  using assms by (simp add: removeEmptyParagraphs_def)

lemma removeEmptyParagraphs_take:
  "\<forall>i<m. emptyParagraphAt (drop i t) = None \<Longrightarrow>
   removeEmptyParagraphs t = take m t @ removeEmptyParagraphs (drop m t)"
proof (induction m arbitrary: t)
  case 0
  show ?case by simp
next
  case (Suc m)
  show ?case
  proof (cases t)
    case Nil
    then show ?thesis by simp
  next
    case (Cons c cs)
    from Suc.prems have "emptyParagraphAt (drop 0 t) = None" by blast
    then have none: "emptyParagraphAt (c # cs) = None" by (simp add: Cons)
    have "\<forall>i<m. emptyParagraphAt (drop i cs) = None"
    proof (intro allI impI)
      fix i assume "i < m"
      then have "emptyParagraphAt (drop (Suc i) t) = None" using Suc.prems by simp
      then show "emptyParagraphAt (drop i cs) = None" by (simp add: Cons)
    qed
    from Suc.IH [OF this] removeEmptyParagraphs_no_match [OF none]
    show ?thesis by (simp add: Cons)
  qed
qed

lemma emptyParagraphAt_cong:
  assumes "emptyParagraphAt s = Some n" and "take n s' = take n s"
  shows "emptyParagraphAt s' = Some n"
proof -
  from assms(1) have n: "n \<le> length s" and e: "isEmptyParagraph (take n s)"
    by (simp_all add: emptyParagraphAt_isEmptyParagraph)
  have "length (take n s') = length (take n s)" using assms(2) by simp
  with n have "n \<le> length s'" by simp
  with e assms(2) show ?thesis by (simp add: emptyParagraphAt_isEmptyParagraph)
qed

lemma dropWhile_ws_rev:
  "\<forall>c\<in>set w. isWhiteSpace c \<Longrightarrow> dropWhile isWhiteSpace (rev w @ ys) = dropWhile isWhiteSpace ys"
  by (rule dropWhile_append2) simp

lemma opensEmptyParagraph_less: "opensEmptyParagraph (x @ ''<'')"
  by (simp add: opensEmptyParagraph_def)

lemma opensEmptyParagraph_tag:
  "a \<in> {''<p>'', ''<P>''} \<Longrightarrow> opensEmptyParagraph (x @ take 2 a)"
  by (auto simp: opensEmptyParagraph_def)

lemma opensEmptyParagraph_space:
  assumes "a \<in> {''<p>'', ''<P>''}" and "\<forall>c\<in>set w. isWhiteSpace c"
  shows "opensEmptyParagraph (x @ a @ w)"
  using assms(1) by (auto simp: opensEmptyParagraph_def dropWhile_ws_rev [OF assms(2)])

lemma opensEmptyParagraph_slash:
  assumes "a \<in> {''<p>'', ''<P>''}" and "\<forall>c\<in>set w. isWhiteSpace c"
    and "b \<in> {''</p>'', ''</P>''}"
  shows "opensEmptyParagraph (x @ a @ w @ take 2 b)"
  using assms(1,3) by (auto simp: opensEmptyParagraph_def dropWhile_ws_rev [OF assms(2)])

lemma opensEmptyParagraph_close:
  assumes "a \<in> {''<p>'', ''<P>''}" and "\<forall>c\<in>set w. isWhiteSpace c"
    and "b \<in> {''</p>'', ''</P>''}"
  shows "opensEmptyParagraph (x @ a @ w @ take 3 b)"
  using assms(1,3) by (auto simp: opensEmptyParagraph_def dropWhile_ws_rev [OF assms(2)])

lemma opensEmptyParagraph_inside:
  assumes "emptyParagraphAt s = Some n" and "0 < k" and "k < n"
  shows "opensEmptyParagraph (l @ take k s)"
proof -
  from assms(1) obtain a w b r where s: "s = a @ w @ b @ r" and a: "a \<in> {''<p>'', ''<P>''}"
    and w: "\<forall>c\<in>set w. isWhiteSpace c" and b: "b \<in> {''</p>'', ''</P>''}" and n: "n = 7 + length w"
    unfolding emptyParagraphAt_iff by blast
  from a have la: "length a = 3" by auto
  from b have lb: "length b = 4" by auto
  from assms(2,3) n
  consider "k = 1" | "k = 2" | "3 \<le> k \<and> k \<le> 3 + length w" | "k = 4 + length w"
    | "k = 5 + length w" | "k = 6 + length w"
    by linarith
  then show ?thesis
  proof cases
    case 1
    have "take k s = ''<''" using a unfolding s 1 by auto
    then show ?thesis by (simp add: opensEmptyParagraph_less)
  next
    case 2
    have "take k s = take 2 a" unfolding s 2 using la by simp
    then show ?thesis using opensEmptyParagraph_tag [OF a] by simp
  next
    case 3
    then have "take k s = a @ take (k - 3) w" unfolding s using la by simp
    moreover have "\<forall>c\<in>set (take (k - 3) w). isWhiteSpace c"
      using w by (meson in_set_takeD)
    ultimately show ?thesis using opensEmptyParagraph_space [OF a] by simp
  next
    case 4
    have "take k s = a @ w @ take 1 b" unfolding s 4 using la lb by simp
    also have "take 1 b = ''<''" using b by auto
    finally have "l @ take k s = (l @ a @ w) @ ''<''" by simp
    then show ?thesis using opensEmptyParagraph_less [of "l @ a @ w"] by simp
  next
    case 5
    have "take k s = a @ w @ take 2 b" unfolding s 5 using la lb by simp
    then show ?thesis using opensEmptyParagraph_slash [OF a w b] by simp
  next
    case 6
    have "take k s = a @ w @ take 3 b" unfolding s 6 using la lb by simp
    then show ?thesis using opensEmptyParagraph_close [OF a w b] by simp
  qed
qed

lemma emptyParagraphsApart_iff:
  "emptyParagraphsApart s \<longleftrightarrow>
     (\<forall>i n. emptyParagraphAt (drop i s) = Some n \<longrightarrow> \<not> opensEmptyParagraph (take i s))"
proof
  assume h: "emptyParagraphsApart s"
  show "\<forall>i n. emptyParagraphAt (drop i s) = Some n \<longrightarrow> \<not> opensEmptyParagraph (take i s)"
  proof (intro allI impI)
    fix i n assume m: "emptyParagraphAt (drop i s) = Some n"
    then have n: "n \<le> length s - i" and e: "isEmptyParagraph (take n (drop i s))"
      by (simp_all add: emptyParagraphAt_isEmptyParagraph)
    from emptyParagraphAt_length [OF m] have i: "i \<le> length s" by (simp, arith)
    from h i n have "\<not> (isEmptyParagraph (take n (drop i s)) \<and> opensEmptyParagraph (take i s))"
      unfolding emptyParagraphsApart_def list_all_upt by blast
    with e show "\<not> opensEmptyParagraph (take i s)" by simp
  qed
next
  assume h: "\<forall>i n. emptyParagraphAt (drop i s) = Some n \<longrightarrow> \<not> opensEmptyParagraph (take i s)"
  show "emptyParagraphsApart s"
    unfolding emptyParagraphsApart_def list_all_upt
  proof (intro allI impI)
    fix i n assume i: "i \<le> length s" and n: "n \<le> length s - i"
    show "\<not> (isEmptyParagraph (take n (drop i s)) \<and> opensEmptyParagraph (take i s))"
    proof
      assume c: "isEmptyParagraph (take n (drop i s)) \<and> opensEmptyParagraph (take i s)"
      with n have "emptyParagraphAt (drop i s) = Some n"
        by (simp add: emptyParagraphAt_isEmptyParagraph)
      with h c show False by blast
    qed
  qed
qed

lemma removeEmptyParagraphs_clean:
  assumes "\<forall>i n. emptyParagraphAt (drop i v) = Some n \<longrightarrow> \<not> opensEmptyParagraph (l @ take i v)"
  shows "emptyParagraphAt (drop j (removeEmptyParagraphs v)) = None"
  using assms
proof (induction v arbitrary: l j rule: length_induct)
  case (1 v)
  note prems = "1.prems"
  show ?case
  proof (cases v)
    case Nil
    then show ?thesis by simp
  next
    case (Cons c cs)
    show ?thesis
    proof (cases "emptyParagraphAt v")
      case (Some n)
      from emptyParagraphAt_length [OF Some] have n: "7 \<le> n" "n \<le> length v" by simp_all
      have rep: "removeEmptyParagraphs v = removeEmptyParagraphs (drop n v)"
        by (rule removeEmptyParagraphs_match [OF Some])
      have short: "length (drop n v) < length v" using n Cons by simp
      have apart: "\<forall>i m. emptyParagraphAt (drop i (drop n v)) = Some m \<longrightarrow>
          \<not> opensEmptyParagraph ((l @ take n v) @ take i (drop n v))"
      proof (intro allI impI)
        fix i m assume "emptyParagraphAt (drop i (drop n v)) = Some m"
        then have "emptyParagraphAt (drop (n + i) v) = Some m" by (simp add: add.commute)
        with prems have "\<not> opensEmptyParagraph (l @ take (n + i) v)" by blast
        then show "\<not> opensEmptyParagraph ((l @ take n v) @ take i (drop n v))"
          by (simp add: take_add)
      qed
      from "1.IH" short apart
      have "emptyParagraphAt (drop j (removeEmptyParagraphs (drop n v))) = None" by blast
      then show ?thesis by (simp add: rep)
    next
      case None
      have rep: "removeEmptyParagraphs v = c # removeEmptyParagraphs cs"
        using None removeEmptyParagraphs_no_match by (simp add: Cons)
      have short: "length cs < length v" by (simp add: Cons)
      have apart: "\<forall>i m. emptyParagraphAt (drop i cs) = Some m \<longrightarrow>
          \<not> opensEmptyParagraph ((l @ [c]) @ take i cs)"
      proof (intro allI impI)
        fix i m assume "emptyParagraphAt (drop i cs) = Some m"
        then have "emptyParagraphAt (drop (Suc i) v) = Some m" by (simp add: Cons)
        with prems have "\<not> opensEmptyParagraph (l @ take (Suc i) v)" by blast
        then show "\<not> opensEmptyParagraph ((l @ [c]) @ take i cs)" by (simp add: Cons)
      qed
      from "1.IH" short apart
      have IH: "\<And>j. emptyParagraphAt (drop j (removeEmptyParagraphs cs)) = None" by blast
      show ?thesis
      proof (cases j)
        case (Suc j')
        then show ?thesis using IH [of j'] by (simp add: rep)
      next
        case 0
        have "emptyParagraphAt (removeEmptyParagraphs v) = None"
        proof (rule ccontr)
          assume "emptyParagraphAt (removeEmptyParagraphs v) \<noteq> None"
          then obtain n where n: "emptyParagraphAt (removeEmptyParagraphs v) = Some n" by auto
          have ex: "\<exists>i. emptyParagraphAt (drop i v) \<noteq> None \<and> i < n"
          proof (rule ccontr)
            assume "\<not> (\<exists>i. emptyParagraphAt (drop i v) \<noteq> None \<and> i < n)"
            then have "\<forall>i<n. emptyParagraphAt (drop i v) = None" by blast
            from removeEmptyParagraphs_take [OF this]
            have "removeEmptyParagraphs v = take n v @ removeEmptyParagraphs (drop n v)" .
            then have "take n (removeEmptyParagraphs v) = take n v"
              by (cases "n \<le> length v") simp_all
            then have "take n v = take n (removeEmptyParagraphs v)" by simp
            from emptyParagraphAt_cong [OF n this] None show False by simp
          qed
          define m where "m = (LEAST i. emptyParagraphAt (drop i v) \<noteq> None \<and> i < n)"
          from ex have m1: "emptyParagraphAt (drop m v) \<noteq> None \<and> m < n"
            unfolding m_def by (rule LeastI_ex)
          have m2: "\<forall>i<m. emptyParagraphAt (drop i v) = None"
          proof (intro allI impI)
            fix i assume "i < m"
            then have "\<not> (emptyParagraphAt (drop i v) \<noteq> None \<and> i < n)"
              unfolding m_def by (rule not_less_Least)
            moreover have "i < n" using \<open>i < m\<close> m1 by simp
            ultimately show "emptyParagraphAt (drop i v) = None" by simp
          qed
          have "m \<noteq> 0" using m1 None by (cases m) auto
          then have pos: "0 < m" by simp
          have "m < length v" using m1 by (cases "m < length v") simp_all
          from removeEmptyParagraphs_take [OF m2]
          have "removeEmptyParagraphs v = take m v @ removeEmptyParagraphs (drop m v)" .
          then have "take m (removeEmptyParagraphs v) = take m v"
            using \<open>m < length v\<close> by simp
          with opensEmptyParagraph_inside [OF n pos, of l] m1
          have "opensEmptyParagraph (l @ take m v)" by simp
          moreover from m1 obtain k where "emptyParagraphAt (drop m v) = Some k" by auto
          with prems have "\<not> opensEmptyParagraph (l @ take m v)" by blast
          ultimately show False by simp
        qed
        then show ?thesis by (simp add: 0)
      qed
    qed
  qed
qed

lemma removeEmptyParagraphs_removes:
  assumes "emptyParagraphsApart z"
  shows "\<not> containsEmptyParagraph (removeEmptyParagraphs z)"
proof -
  from assms have "\<forall>i n. emptyParagraphAt (drop i z) = Some n \<longrightarrow>
      \<not> opensEmptyParagraph ([] @ take i z)"
    by (simp add: emptyParagraphsApart_iff)
  from removeEmptyParagraphs_clean [OF this] show ?thesis
    by (simp add: containsEmptyParagraph_iff)
qed

text \<open>The second replacement and \<open>trim()\<close>; the strings that the passes leave alone.\<close>

lemma containsEmptyParagraph_Cons:
  "\<not> containsEmptyParagraph (c # cs) \<Longrightarrow>
   emptyParagraphAt (c # cs) = None \<and> \<not> containsEmptyParagraph cs"
proof -
  assume no: "\<not> containsEmptyParagraph (c # cs)"
  then have all: "\<forall>i<Suc (length cs). emptyParagraphAt (drop i (c # cs)) = None"
    by (simp add: containsEmptyParagraph_iff)
  from all have "emptyParagraphAt (drop 0 (c # cs)) = None" by blast
  moreover have "\<forall>i<length cs. emptyParagraphAt (drop i cs) = None"
  proof (intro allI impI)
    fix i assume "i < length cs"
    then have "emptyParagraphAt (drop (Suc i) (c # cs)) = None" using all by blast
    then show "emptyParagraphAt (drop i cs) = None" by simp
  qed
  ultimately show ?thesis by (simp add: containsEmptyParagraph_iff)
qed

lemma removeEmptyParagraphs_unchanged:
  "\<not> containsEmptyParagraph s \<Longrightarrow> removeEmptyParagraphs s = s"
  unfolding removeEmptyParagraphs_def
proof (induction s)
  case Nil
  show ?case by simp
next
  case (Cons c cs)
  from containsEmptyParagraph_Cons [OF Cons.prems] Cons.IH show ?case by simp
qed

lemma endsWithBreak_Cons:
  "\<not> endsWithBreak (c # cs) \<Longrightarrow> \<not> trailingBreakAt (c # cs) \<and> \<not> endsWithBreak cs"
proof -
  assume no: "\<not> endsWithBreak (c # cs)"
  then have all: "\<forall>i<Suc (length cs). \<not> trailingBreakAt (drop i (c # cs))"
    by (simp add: endsWithBreak_iff)
  from all have "\<not> trailingBreakAt (drop 0 (c # cs))" by blast
  moreover have "\<forall>i<length cs. \<not> trailingBreakAt (drop i cs)"
  proof (intro allI impI)
    fix i assume "i < length cs"
    then have "\<not> trailingBreakAt (drop (Suc i) (c # cs))" using all by blast
    then show "\<not> trailingBreakAt (drop i cs)" by simp
  qed
  ultimately show ?thesis by (simp add: endsWithBreak_iff)
qed

lemma removeTrailingBreak_unchanged:
  "\<not> endsWithBreak s \<Longrightarrow> removeTrailingBreak s = s"
proof (induction s)
  case Nil
  show ?case by simp
next
  case (Cons c cs)
  from endsWithBreak_Cons [OF Cons.prems] Cons.IH show ?case by simp
qed

lemma dropWhile_after_strip:
  assumes "a = [] \<or> \<not> P (hd a)"
  shows "dropWhile P (rev (dropWhile P (rev a))) = rev (dropWhile P (rev a))"
proof (cases "rev (dropWhile P (rev a))")
  case Nil
  show ?thesis unfolding Nil by simp
next
  case (Cons c cs)
  have "a = rev (dropWhile P (rev a)) @ rev (takeWhile P (rev a))"
    by (metis rev_append rev_rev_ident takeWhile_dropWhile_id)
  then have a: "a = (c # cs) @ rev (takeWhile P (rev a))"
    using Cons by simp
  then have "hd a = c" and "a \<noteq> []"
    by (metis append_Cons list.sel(1), metis append_Cons list.distinct(1))
  with assms have "\<not> P c" by auto
  then show ?thesis unfolding Cons by simp
qed

lemma trim_trim: "trim (trim s) = trim s"
proof -
  have "dropWhile isWhiteSpace s = [] \<or> \<not> isWhiteSpace (hd (dropWhile isWhiteSpace s))"
    using hd_dropWhile [of isWhiteSpace s] by blast
  then have "dropWhile isWhiteSpace (trim s) = trim s"
    unfolding trim_def by (rule dropWhile_after_strip)
  then have "trim (trim s) = rev (dropWhile isWhiteSpace (rev (trim s)))"
    by (simp add: trim_def [of "trim s"])
  also have "\<dots> = trim s"
    by (simp add: trim_def)
  finally show ?thesis .
qed

lemma containsEmptyParagraph_parts:
  "containsEmptyParagraph s \<longleftrightarrow> (\<exists>p e q. s = p @ e @ q \<and> isEmptyParagraph e)"
proof
  assume "containsEmptyParagraph s"
  then obtain i n where e: "isEmptyParagraph (take n (drop i s))"
    unfolding containsEmptyParagraph_ex by blast
  have "s = take i s @ take n (drop i s) @ drop n (drop i s)"
    by (simp only: append_take_drop_id)
  with e show "\<exists>p e q. s = p @ e @ q \<and> isEmptyParagraph e" by blast
next
  assume "\<exists>p e q. s = p @ e @ q \<and> isEmptyParagraph e"
  then obtain p e q where s: "s = p @ e @ q" and e: "isEmptyParagraph e" by blast
  have "length p \<le> length s" and "length e \<le> length s - length p"
    and "take (length e) (drop (length p) s) = e"
    unfolding s by simp_all
  with e show "containsEmptyParagraph s"
    unfolding containsEmptyParagraph_ex by metis
qed

lemma containsEmptyParagraph_sub:
  "\<not> containsEmptyParagraph (x @ u @ y) \<Longrightarrow> \<not> containsEmptyParagraph u"
proof
  assume no: "\<not> containsEmptyParagraph (x @ u @ y)" and "containsEmptyParagraph u"
  then obtain p e q where "u = p @ e @ q" and e: "isEmptyParagraph e"
    unfolding containsEmptyParagraph_parts by blast
  then have "x @ u @ y = (x @ p) @ e @ (q @ y)" by simp
  with e have "containsEmptyParagraph (x @ u @ y)"
    unfolding containsEmptyParagraph_parts by blast
  with no show False by simp
qed

lemma endsWithBreak_parts:
  "endsWithBreak s \<longleftrightarrow> (\<exists>p f. s = p @ f \<and> trailingBreakAt f)"
proof
  assume "endsWithBreak s"
  then obtain i where t: "trailingBreakAt (drop i s)" unfolding endsWithBreak_iff by blast
  have "s = take i s @ drop i s" by simp
  with t show "\<exists>p f. s = p @ f \<and> trailingBreakAt f" by blast
next
  assume "\<exists>p f. s = p @ f \<and> trailingBreakAt f"
  then obtain p f where s: "s = p @ f" and t: "trailingBreakAt f" by blast
  from t have "f \<noteq> []" by auto
  then have "length p < length s" and "drop (length p) s = f" unfolding s by simp_all
  with t show "endsWithBreak s" unfolding endsWithBreak_iff by metis
qed

lemma trailingBreakAt_append:
  assumes "trailingBreakAt f" and "\<forall>c\<in>set y. isWhiteSpace c"
  shows "trailingBreakAt (f @ y)"
proof -
  from assms(1) obtain a w e t where f: "f = a @ w @ e @ t"
    and a: "a \<in> {''<br'', ''<bR'', ''<Br'', ''<BR''}"
    and w: "\<forall>c\<in>set w. isWhiteSpace c" and e: "e \<in> {''>'', ''/>''}"
    and t: "\<forall>c\<in>set t. isWhiteSpace c"
    unfolding trailingBreakAt_iff by blast
  have ty: "\<forall>c\<in>set (t @ y). isWhiteSpace c" using t assms(2) by auto
  show ?thesis unfolding trailingBreakAt_iff
  proof (intro exI conjI)
    show "f @ y = a @ w @ e @ (t @ y)" unfolding f by simp
  qed (fact a w e ty)+
qed

lemma trailingBreakAt_hd: "trailingBreakAt f \<Longrightarrow> f \<noteq> [] \<and> \<not> isWhiteSpace (hd f)"
  unfolding trailingBreakAt_iff by auto

lemma removeTrailingBreak_cut:
  "\<not> endsWithBreak w \<and> removeTrailingBreak w = w \<or>
   (\<exists>f. w = removeTrailingBreak w @ f \<and> trailingBreakAt f)"
proof (induction w)
  case Nil
  show ?case by (simp add: endsWithBreak_iff)
next
  case (Cons c cs)
  show ?case
  proof (cases "trailingBreakAt (c # cs)")
    case True
    then show ?thesis by simp
  next
    case False
    from Cons.IH show ?thesis
    proof
      assume h: "\<not> endsWithBreak cs \<and> removeTrailingBreak cs = cs"
      have "\<not> endsWithBreak (c # cs)"
      proof
        assume "endsWithBreak (c # cs)"
        then obtain i where i: "trailingBreakAt (drop i (c # cs))"
          unfolding endsWithBreak_iff by blast
        show False
        proof (cases i)
          case 0
          with i False show False by simp
        next
          case (Suc i')
          with i have t: "trailingBreakAt (drop i' cs)" by simp
          have "cs = take i' cs @ drop i' cs" by simp
          with t have "endsWithBreak cs" unfolding endsWithBreak_parts by blast
          with h show False by simp
        qed
      qed
      with h False show ?thesis by simp
    next
      assume "\<exists>f. cs = removeTrailingBreak cs @ f \<and> trailingBreakAt f"
      then obtain f where "cs = removeTrailingBreak cs @ f" and "trailingBreakAt f" by blast
      then have "c # cs = removeTrailingBreak (c # cs) @ f \<and> trailingBreakAt f"
        using False by simp
      then show ?thesis by blast
    qed
  qed
qed

lemma removeTrailingBreak_prefix: "\<exists>f. w = removeTrailingBreak w @ f"
  using removeTrailingBreak_cut [of w] by (metis append_Nil2)

lemma endsWithTwoBreaks_ex:
  "endsWithTwoBreaks s \<longleftrightarrow>
     (\<exists>i\<le>length s. \<exists>n\<le>length s - i. isLineBreak (take n (drop i s)) \<and>
        trailingBreakAt (dropWhile isWhiteSpace (drop (i + n) s)))"
  unfolding endsWithTwoBreaks_def list_ex_upt isFinalLineBreak_iff ..

lemma removeTrailingBreak_removes:
  assumes "\<not> endsWithTwoBreaks w"
  shows "\<not> endsWithBreak (removeTrailingBreak w)"
proof
  assume c: "endsWithBreak (removeTrailingBreak w)"
  from removeTrailingBreak_cut [of w] show False
  proof
    assume "\<not> endsWithBreak w \<and> removeTrailingBreak w = w"
    with c show False by simp
  next
    assume "\<exists>f. w = removeTrailingBreak w @ f \<and> trailingBreakAt f"
    then obtain f where wf: "w = removeTrailingBreak w @ f" and f: "trailingBreakAt f" by blast
    from c obtain q g where qg: "removeTrailingBreak w = q @ g" and g: "trailingBreakAt g"
      unfolding endsWithBreak_parts by blast
    from g obtain a x e t where g': "g = a @ x @ e @ t"
      and a: "a \<in> {''<br'', ''<bR'', ''<Br'', ''<BR''}"
      and x: "\<forall>c\<in>set x. isWhiteSpace c" and e: "e \<in> {''>'', ''/>''}"
      and t: "\<forall>c\<in>set t. isWhiteSpace c"
      unfolding trailingBreakAt_iff by blast
    have w: "w = q @ (a @ x @ e) @ t @ f" using wf qg g' by simp
    let ?i = "length q" and ?n = "length (a @ x @ e)"
    have tk: "take ?n (drop ?i w) = a @ x @ e"
      by (subst w) simp
    have dr: "drop (?i + ?n) w = t @ f"
      by (subst w) simp
    have lb: "isLineBreak (take ?n (drop ?i w))" unfolding tk isLineBreak_iff
    proof (intro exI conjI)
      show "a @ x @ e = a @ x @ e" by simp
    qed (fact a x e)+
    from trailingBreakAt_hd [OF f] have "f = [] \<or> \<not> isWhiteSpace (hd f)" by simp
    from takeWhile_ws_append(2) [OF t this]
    have "dropWhile isWhiteSpace (drop (?i + ?n) w) = f" unfolding dr .
    with f have fin: "trailingBreakAt (dropWhile isWhiteSpace (drop (?i + ?n) w))" by simp
    have "?i \<le> length w" and "?n \<le> length w - ?i" by (subst w, simp)+
    with lb fin have "endsWithTwoBreaks w" unfolding endsWithTwoBreaks_ex by blast
    with assms show False by simp
  qed
qed

lemma trim_parts:
  "\<exists>x y. w = x @ trim w @ y \<and> (\<forall>c\<in>set x. isWhiteSpace c) \<and> (\<forall>c\<in>set y. isWhiteSpace c)"
proof -
  let ?d = "dropWhile isWhiteSpace w"
  have d: "?d = trim w @ rev (takeWhile isWhiteSpace (rev ?d))"
    unfolding trim_def by (metis rev_append rev_rev_ident takeWhile_dropWhile_id)
  have "w = takeWhile isWhiteSpace w @ ?d" by simp
  with d have w: "w = takeWhile isWhiteSpace w @ trim w @ rev (takeWhile isWhiteSpace (rev ?d))"
    by simp
  show ?thesis
  proof (intro exI conjI)
    show "w = takeWhile isWhiteSpace w @ trim w @ rev (takeWhile isWhiteSpace (rev ?d))"
      by (fact w)
    show "\<forall>c\<in>set (takeWhile isWhiteSpace w). isWhiteSpace c" by (auto dest: set_takeWhileD)
    show "\<forall>c\<in>set (rev (takeWhile isWhiteSpace (rev ?d))). isWhiteSpace c"
      by (auto dest: set_takeWhileD)
  qed
qed

lemma trim_keeps_no_break:
  assumes "\<not> endsWithBreak w"
  shows "\<not> endsWithBreak (trim w)"
proof
  assume "endsWithBreak (trim w)"
  then obtain p f where pf: "trim w = p @ f" and f: "trailingBreakAt f"
    unfolding endsWithBreak_parts by blast
  from trim_parts [of w] obtain x y where w: "w = x @ trim w @ y"
    and y: "\<forall>c\<in>set y. isWhiteSpace c" by blast
  from w pf have "w = (x @ p) @ (f @ y)" by simp
  moreover have "trailingBreakAt (f @ y)" by (rule trailingBreakAt_append [OF f y])
  ultimately have "endsWithBreak w" unfolding endsWithBreak_parts by blast
  with assms show False by simp
qed

lemma takeWhile_dropWhile_Nil: "takeWhile P (dropWhile P xs) = []"
  by (induction xs) simp_all

lemma isTrimmed_trim: "isTrimmed (trim w)"
proof -
  have "dropWhile isWhiteSpace w = [] \<or> \<not> isWhiteSpace (hd (dropWhile isWhiteSpace w))"
    using hd_dropWhile [of isWhiteSpace w] by blast
  then have "dropWhile isWhiteSpace (trim w) = trim w"
    unfolding trim_def by (rule dropWhile_after_strip)
  moreover have "takeWhile isWhiteSpace (trim w) @ dropWhile isWhiteSpace (trim w) = trim w"
    by simp
  ultimately have "takeWhile isWhiteSpace (trim w) @ trim w = trim w" by simp
  then have "takeWhile isWhiteSpace (trim w) = []" by (rule iffD1 [OF append_self_conv2])
  moreover have "takeWhile isWhiteSpace (rev (trim w)) = []"
    by (simp add: trim_def takeWhile_dropWhile_Nil)
  ultimately show ?thesis by (simp add: isTrimmed_def)
qed

text \<open>
  Claim C2 (sanitization idempotence), as amended. Whatever function stands for
  \<open>DOMPurify.sanitize\<close>: take for the cleaned markup what it returns for the input.
  When the empty paragraphs of the cleaned markup stand apart, when the cleaned markup
  without its empty paragraphs does not end with two line breaks, and when the library
  returns the output of \<open>sanitizeForOutput\<close> unchanged, then a second application
  returns that output unchanged; and the output contains no empty paragraph, does not
  end with a line break and is trimmed.
\<close>

theorem sanitizeForOutput_idempotent:
  assumes "purify outputConfig (sanitizeForOutput purify x) = sanitizeForOutput purify x"
    and "emptyParagraphsApart (purify outputConfig x)"
    and "\<not> endsWithTwoBreaks (removeEmptyParagraphs (purify outputConfig x))"
  shows "sanitizeForOutput purify (sanitizeForOutput purify x) = sanitizeForOutput purify x \<and>
         \<not> containsEmptyParagraph (sanitizeForOutput purify x) \<and>
         \<not> endsWithBreak (sanitizeForOutput purify x) \<and>
         isTrimmed (sanitizeForOutput purify x)"
proof -
  let ?y = "sanitizeForOutput purify x"
  define r where "r = removeEmptyParagraphs (purify outputConfig x)"
  define b where "b = removeTrailingBreak r"
  have y: "?y = trim b" by (simp add: sanitizeForOutput_def Let_def b_def r_def)
  have r: "\<not> containsEmptyParagraph r"
    unfolding r_def by (rule removeEmptyParagraphs_removes [OF assms(2)])
  from removeTrailingBreak_prefix [of r] obtain f where "r = b @ f" unfolding b_def by blast
  then have "r = [] @ b @ f" by simp
  with r have b1: "\<not> containsEmptyParagraph b" using containsEmptyParagraph_sub by metis
  from trim_parts [of b] obtain u v where "b = u @ trim b @ v" by blast
  with b1 have y1: "\<not> containsEmptyParagraph ?y" unfolding y using containsEmptyParagraph_sub by metis
  have "\<not> endsWithBreak b"
    unfolding b_def by (rule removeTrailingBreak_removes) (use assms(3) in \<open>simp add: r_def\<close>)
  then have y2: "\<not> endsWithBreak ?y" unfolding y by (rule trim_keeps_no_break)
  have y3: "isTrimmed ?y" unfolding y by (rule isTrimmed_trim)
  have trimmed: "trim ?y = ?y" unfolding y by (rule trim_trim)
  have "sanitizeForOutput purify ?y = trim (removeTrailingBreak (removeEmptyParagraphs ?y))"
    using assms(1) by (simp add: sanitizeForOutput_def [of purify ?y] Let_def)
  also have "\<dots> = trim ?y"
    using y1 y2 by (simp add: removeEmptyParagraphs_unchanged removeTrailingBreak_unchanged)
  finally have "sanitizeForOutput purify ?y = ?y" using trimmed by simp
  with y1 y2 y3 show ?thesis by simp
qed

lemma sanitizeForOutput_paragraph:
  "DOMPurify_sanitize outputConfig ''<p>Hello</p><p> </p><br>'' = ''<p>Hello</p><p> </p><br>''"
  "removeEmptyParagraphs ''<p>Hello</p><p> </p><br>'' = ''<p>Hello</p><br>''"
  "sanitizeForOutput DOMPurify_sanitize ''<p>Hello</p><p> </p><br>'' = ''<p>Hello</p>''"
  "DOMPurify_sanitize outputConfig ''<p>Hello</p>'' = ''<p>Hello</p>''"
  "emptyParagraphsApart ''<p>Hello</p><p> </p><br>''"
  "\<not> endsWithTwoBreaks ''<p>Hello</p><br>''"
  "\<not> containsEmptyParagraph ''<p>Hello</p>''"
  "\<not> endsWithBreak ''<p>Hello</p>''"
  "isTrimmed ''<p>Hello</p>''"
  by code_simp+

theorem sanitizeForOutput_idempotent_witness:
  "DOMPurify_sanitize outputConfig (sanitizeForOutput DOMPurify_sanitize ''<p>Hello</p><p> </p><br>'')
     = sanitizeForOutput DOMPurify_sanitize ''<p>Hello</p><p> </p><br>'' \<and>
   emptyParagraphsApart (DOMPurify_sanitize outputConfig ''<p>Hello</p><p> </p><br>'') \<and>
   \<not> endsWithTwoBreaks
       (removeEmptyParagraphs (DOMPurify_sanitize outputConfig ''<p>Hello</p><p> </p><br>'')) \<and>
   sanitizeForOutput DOMPurify_sanitize ''<p>Hello</p><p> </p><br>'' = ''<p>Hello</p>'' \<and>
   sanitizeForOutput DOMPurify_sanitize
       (sanitizeForOutput DOMPurify_sanitize ''<p>Hello</p><p> </p><br>'') = ''<p>Hello</p>'' \<and>
   \<not> containsEmptyParagraph (sanitizeForOutput DOMPurify_sanitize ''<p>Hello</p><p> </p><br>'') \<and>
   \<not> endsWithBreak (sanitizeForOutput DOMPurify_sanitize ''<p>Hello</p><p> </p><br>'') \<and>
   isTrimmed (sanitizeForOutput DOMPurify_sanitize ''<p>Hello</p><p> </p><br>'')"
  using sanitizeForOutput_idempotent [of DOMPurify_sanitize "''<p>Hello</p><p> </p><br>''"]
  by (simp only: sanitizeForOutput_paragraph simp_thms)

text \<open>
  The claim as it is written fails: the second replacement removes one trailing line
  break, so the output for two of them still ends with one, and a second application
  removes that one too.
\<close>

theorem sanitizeForOutput_idempotent_counterexample:
  "sanitizeForOutput DOMPurify_sanitize ''a<br><br>'' = ''a<br>'' \<and>
   sanitizeForOutput DOMPurify_sanitize (sanitizeForOutput DOMPurify_sanitize ''a<br><br>'') = ''a'' \<and>
   trim (removeTrailingBreak (removeEmptyParagraphs ''a<br><br>'')) = ''a<br>'' \<and>
   trim (removeTrailingBreak (removeEmptyParagraphs ''a<br>'')) = ''a''"
  by code_simp

text \<open>
  Of the conditions of the amended claim, that input fails the one on line breaks only.
\<close>

lemma two_breaks_excluded:
  "endsWithTwoBreaks (removeEmptyParagraphs (DOMPurify_sanitize outputConfig ''a<br><br>'')) \<and>
   emptyParagraphsApart (DOMPurify_sanitize outputConfig ''a<br><br>'') \<and>
   DOMPurify_sanitize outputConfig ''a<br>'' = ''a<br>''"
  by code_simp

text \<open>
  The condition on the empty paragraphs is needed in a statement about any library
  function: for a library that returns \<open><p><p></p></p>\<close> as it is, the removal of
  the inner empty paragraph brings the outer tags together, and the second application
  removes them.
\<close>

lemma removeEmptyParagraphs_joins:
  "\<not> emptyParagraphsApart ''<p><p></p></p>'' \<and>
   sanitizeForOutput (\<lambda>config html. html) ''<p><p></p></p>'' = ''<p></p>'' \<and>
   sanitizeForOutput (\<lambda>config html. html) ''<p></p>'' = ''''"
  by code_simp

subsection \<open>Dangerous content\<close>

text \<open>
  What the configuration of the source settles by itself: no allowed attribute is an
  inline event handler, and the expression for allowed URIs rejects every
  \<open>javascript:\<close> URI; but \<open>script\<close> is on the list of allowed tags.
\<close>

lemma no_event_handler_allowed:
  "list_all (\<lambda>a. \<not> startsWith a ''on'') (allowedAttr inputConfig @ addAttr inputConfig)"
  "list_all (\<lambda>a. \<not> startsWith a ''on'') (allowedAttr outputConfig @ addAttr outputConfig)"
  by code_simp+

lemma javascript_uri_rejected: "\<not> ALLOWED_URI_REGEXP (''javascript:'' @ rest)"
  by (simp add: ALLOWED_URI_REGEXP_def matchesUriRegexp_def startsWith_def isSchemeChar_def
      isLetter_def toLowerCase_def)

lemma script_tag_allowed:
  "''script'' \<in> set (allowedTags inputConfig)" "''script'' \<in> set (allowedTags outputConfig)"
  by (simp_all add: inputConfig_def outputConfig_def ALLOWED_TAGS_def)

lemma dangerousHtml_sanitized:
  "sanitizeHtml DOMPurify_sanitize dangerousHtml =
     ''<h1>Sanitized</h1><script>alert(1)</script><p>This had an onclick handler</p>'' @
     ''<a>link</a><p>safe <strong>bold</strong></p>''"
  by code_simp

text \<open>
  Claim C1 (dangerous-content elimination) does not hold of the code for the
  \<open>script\<close> element: \<open>script\<close> is among \<open>ALLOWED_TAGS\<close> (and \<open>ADD_TAGS\<close>)
  and no hook restricts it, so on the input of the scripted scenario both sanitizing
  functions return the input, script included.
\<close>

theorem script_element_survives:
  "sanitizeHtml DOMPurify_sanitize scriptedInput = ''<p>Hi</p><script>alert(1)</script>'' \<and>
   sanitizeForOutput DOMPurify_sanitize scriptedInput = ''<p>Hi</p><script>alert(1)</script>''"
  by code_simp

end
